theory Spec2Isabelle
  imports Main "HOL-Library.Stream"
begin

section \<open>The match-3 board engine of game.ts\<close>

text \<open>
  The development follows \<^verbatim>\<open>src/game.ts\<close>. The module-level variables \<^verbatim>\<open>board\<close>,
  \<^verbatim>\<open>totalScore\<close>, \<^verbatim>\<open>selectedGem\<close>, \<^verbatim>\<open>isDragging\<close>, \<^verbatim>\<open>offsetX\<close> and \<^verbatim>\<open>offsetY\<close> are
  passed explicitly. \<^verbatim>\<open>Math.random\<close> is a hidden source of values: the successive results
  of \<^verbatim>\<open>Math.floor(Math.random() * 5)\<close> form a stream of gem types, and every function that
  draws takes the stream and returns what is left of it. Drawing and the canvas are left
  out: they read the board and never write it (the animation writes \<^verbatim>\<open>renderY\<close> only, later,
  from \<^verbatim>\<open>requestAnimationFrame\<close>).
\<close>

subsection \<open>Data\<close>

definition GRID_SIZE :: nat where
  "GRID_SIZE = 8"

definition CELL_SIZE :: int where
  "CELL_SIZE = 100"

text \<open>\<^verbatim>\<open>type GemType = 0 | 1 | 2 | 3 | 4\<close>: five kinds, compared for equality only.\<close>

datatype GemType = G0 | G1 | G2 | G3 | G4

text \<open>
  \<^verbatim>\<open>interface Gem { x; y; type: GemType | null; selected?; renderY? }\<close>. The fields
  \<^verbatim>\<open>x\<close>, \<^verbatim>\<open>y\<close> and \<^verbatim>\<open>type\<close> are named \<open>gem_x\<close>, \<open>gem_y\<close> and \<open>gem_type\<close>; \<open>None\<close> is
  \<^verbatim>\<open>null\<close> for the type and an absent property for the two optional fields.
\<close>

record Gem =
  gem_x :: nat
  gem_y :: nat
  gem_type :: "GemType option"
  selected :: "bool option"
  renderY :: "int option"

type_synonym Board = "Gem list list"

type_synonym Rng = "GemType stream"

text \<open>\<^verbatim>\<open>board[y][x] = g\<close> and \<^verbatim>\<open>matched[y][x] = v\<close>: assignment to one cell of a matrix.\<close>

definition setCell :: "'a list list \<Rightarrow> nat \<Rightarrow> nat \<Rightarrow> 'a \<Rightarrow> 'a list list" where
  "setCell m y x v = m[y := (m ! y)[x := v]]"

text \<open>
  \<^verbatim>\<open>row[i]?.type\<close>: the type of the gem at index \<open>i\<close>, and \<^verbatim>\<open>undefined\<close> past the end of
  the array. Both \<^verbatim>\<open>undefined\<close> and \<^verbatim>\<open>null\<close> differ from every gem type under \<^verbatim>\<open>===\<close>, so
  both are \<open>None\<close> here.
\<close>

definition typeAt :: "Gem list \<Rightarrow> nat \<Rightarrow> GemType option" where
  "typeAt row i = (if i < length row then gem_type (row ! i) else None)"

subsection \<open>Token generator and initial board\<close>

text \<open>\<^verbatim>\<open>getRandomGemType\<close>: one draw from the stream.\<close>

definition getRandomGemType :: "Rng \<Rightarrow> GemType \<times> Rng" where
  "getRandomGemType rng = (shd rng, stl rng)"

text \<open>
  \<^verbatim>\<open>getSafeRandomGem(x, y, currentRow)\<close>: the \<^verbatim>\<open>while (true)\<close> loop draws until a type is
  neither the third of a run to the left nor the third of a run upwards. The loop has no
  bound, so the result is an option and \<open>None\<close> means that the loop never returns. It is
  called from \<open>initBoard\<close> only, where \<open>board\<close> holds the \<open>y\<close> finished rows.
\<close>

partial_function (option) getSafeRandomGem ::
  "Rng \<Rightarrow> Board \<Rightarrow> nat \<Rightarrow> nat \<Rightarrow> Gem list \<Rightarrow> (GemType \<times> Rng) option" where
  "getSafeRandomGem rng board x y currentRow =
     (case getRandomGemType rng of (gemType, rng') \<Rightarrow>
        let isMatchLeft = (x \<ge> 2 \<and> typeAt currentRow (x - 1) = Some gemType
                                 \<and> typeAt currentRow (x - 2) = Some gemType);
            isMatchUp = (y \<ge> 2 \<and> typeAt (board ! (y - 1)) x = Some gemType
                               \<and> typeAt (board ! (y - 2)) x = Some gemType)
        in if \<not> isMatchLeft \<and> \<not> isMatchUp then Some (gemType, rng')
           else getSafeRandomGem rng' board x y currentRow)"

text \<open>The inner loop of \<open>initBoard\<close>: \<^verbatim>\<open>for (let x = 0; x < GRID_SIZE; x++) row.push(...)\<close>.\<close>

function initRow :: "Rng \<Rightarrow> Board \<Rightarrow> nat \<Rightarrow> nat \<Rightarrow> Gem list \<Rightarrow> (Gem list \<times> Rng) option" where
  "initRow rng board y x row =
     (if x < GRID_SIZE then
        (case getSafeRandomGem rng board x y row of
           None \<Rightarrow> None
         | Some (t, rng') \<Rightarrow>
             initRow rng' board y (x + 1)
               (row @ [\<lparr>gem_x = x, gem_y = y, gem_type = Some t,
                        selected = Some False, renderY = None\<rparr>]))
      else Some (row, rng))"
  by pat_completeness auto
termination
  by (relation "measure (\<lambda>(rng, board, y, x, row). GRID_SIZE - x)") auto

text \<open>The outer loop: \<^verbatim>\<open>for (let y = 0; y < GRID_SIZE; y++) { ...; board.push(row) }\<close>.\<close>

function initRows :: "Rng \<Rightarrow> Board \<Rightarrow> nat \<Rightarrow> (Board \<times> Rng) option" where
  "initRows rng board y =
     (if y < GRID_SIZE then
        (case initRow rng board y 0 [] of
           None \<Rightarrow> None
         | Some (row, rng') \<Rightarrow> initRows rng' (board @ [row]) (y + 1))
      else Some (board, rng))"
  by pat_completeness auto
termination
  by (relation "measure (\<lambda>(rng, board, y). GRID_SIZE - y)") auto

definition initBoard :: "Rng \<Rightarrow> (Board \<times> Rng) option" where
  "initBoard rng = initRows rng [] 0"

subsection \<open>Match detector\<close>

text \<open>The \<^verbatim>\<open>while (k < GRID_SIZE && board[y][k].type === type)\<close> loop of the horizontal scan.\<close>

function extendRight :: "Board \<Rightarrow> bool list list \<Rightarrow> nat \<Rightarrow> GemType option \<Rightarrow> nat \<Rightarrow> bool list list" where
  "extendRight board matched y type k =
     (if k < GRID_SIZE \<and> gem_type (board ! y ! k) = type
      then extendRight board (setCell matched y k True) y type (k + 1)
      else matched)"
  by pat_completeness auto
termination
  by (relation "measure (\<lambda>(board, matched, y, type, k). GRID_SIZE - k)") auto

text \<open>\<^verbatim>\<open>for (let x = 0; x < GRID_SIZE - 2; x++)\<close> of the horizontal scan, in row \<open>y\<close>.\<close>

function scanRow :: "Board \<Rightarrow> bool list list \<Rightarrow> nat \<Rightarrow> nat \<Rightarrow> bool list list" where
  "scanRow board matched y x =
     (if x < GRID_SIZE - 2 then
        (let type = gem_type (board ! y ! x) in
         if type \<noteq> None \<and> type = gem_type (board ! y ! (x + 1))
                         \<and> type = gem_type (board ! y ! (x + 2))
         then scanRow board
                (extendRight board
                   (setCell (setCell (setCell matched y x True) y (x + 1) True) y (x + 2) True)
                   y type (x + 3))
                y (x + 1)
         else scanRow board matched y (x + 1))
      else matched)"
  by pat_completeness auto
termination
  by (relation "measure (\<lambda>(board, matched, y, x). GRID_SIZE - x)") auto

function scanRows :: "Board \<Rightarrow> bool list list \<Rightarrow> nat \<Rightarrow> bool list list" where
  "scanRows board matched y =
     (if y < GRID_SIZE then scanRows board (scanRow board matched y 0) (y + 1)
      else matched)"
  by pat_completeness auto
termination
  by (relation "measure (\<lambda>(board, matched, y). GRID_SIZE - y)") auto

text \<open>The \<^verbatim>\<open>while (k < GRID_SIZE && board[k][x].type === type)\<close> loop of the vertical scan.\<close>

function extendDown :: "Board \<Rightarrow> bool list list \<Rightarrow> nat \<Rightarrow> GemType option \<Rightarrow> nat \<Rightarrow> bool list list" where
  "extendDown board matched x type k =
     (if k < GRID_SIZE \<and> gem_type (board ! k ! x) = type
      then extendDown board (setCell matched k x True) x type (k + 1)
      else matched)"
  by pat_completeness auto
termination
  by (relation "measure (\<lambda>(board, matched, x, type, k). GRID_SIZE - k)") auto

function scanColumn :: "Board \<Rightarrow> bool list list \<Rightarrow> nat \<Rightarrow> nat \<Rightarrow> bool list list" where
  "scanColumn board matched x y =
     (if y < GRID_SIZE - 2 then
        (let type = gem_type (board ! y ! x) in
         if type \<noteq> None \<and> type = gem_type (board ! (y + 1) ! x)
                         \<and> type = gem_type (board ! (y + 2) ! x)
         then scanColumn board
                (extendDown board
                   (setCell (setCell (setCell matched y x True) (y + 1) x True) (y + 2) x True)
                   x type (y + 3))
                x (y + 1)
         else scanColumn board matched x (y + 1))
      else matched)"
  by pat_completeness auto
termination
  by (relation "measure (\<lambda>(board, matched, x, y). GRID_SIZE - y)") auto

function scanColumns :: "Board \<Rightarrow> bool list list \<Rightarrow> nat \<Rightarrow> bool list list" where
  "scanColumns board matched x =
     (if x < GRID_SIZE then scanColumns board (scanColumn board matched x 0) (x + 1)
      else matched)"
  by pat_completeness auto
termination
  by (relation "measure (\<lambda>(board, matched, x). GRID_SIZE - x)") auto

text \<open>
  The matrix \<^verbatim>\<open>matched\<close> of \<open>findMatches\<close> after both scans, started from the
  all-\<^verbatim>\<open>false\<close> matrix.
\<close>

definition matchedCells :: "Board \<Rightarrow> bool list list" where
  "matchedCells board =
     scanColumns board
       (scanRows board (replicate GRID_SIZE (replicate GRID_SIZE False)) 0) 0"

text \<open>The collecting loops: the gems at the marked positions, row by row.\<close>

function collectRow :: "Board \<Rightarrow> bool list list \<Rightarrow> nat \<Rightarrow> nat \<Rightarrow> Gem list \<Rightarrow> Gem list" where
  "collectRow board matched y x result =
     (if x < GRID_SIZE then
        collectRow board matched y (x + 1)
          (if matched ! y ! x then result @ [board ! y ! x] else result)
      else result)"
  by pat_completeness auto
termination
  by (relation "measure (\<lambda>(board, matched, y, x, result). GRID_SIZE - x)") auto

function collectRows :: "Board \<Rightarrow> bool list list \<Rightarrow> nat \<Rightarrow> Gem list \<Rightarrow> Gem list" where
  "collectRows board matched y result =
     (if y < GRID_SIZE then
        collectRows board matched (y + 1) (collectRow board matched y 0 result)
      else result)"
  by pat_completeness auto
termination
  by (relation "measure (\<lambda>(board, matched, y, result). GRID_SIZE - y)") auto

definition findMatches :: "Board \<Rightarrow> Gem list" where
  "findMatches board = collectRows board (matchedCells board) 0 []"

subsection \<open>Removal and collapse\<close>

text \<open>\<^verbatim>\<open>for (const gem of matches) board[gem.y][gem.x].type = null\<close>.\<close>

primrec removeMatches :: "Board \<Rightarrow> Gem list \<Rightarrow> Board" where
  "removeMatches board [] = board"
| "removeMatches board (gem # matches) =
     removeMatches
       (setCell board (gem_y gem) (gem_x gem)
          ((board ! gem_y gem ! gem_x gem)\<lparr>gem_type := None\<rparr>))
       matches"

text \<open>
  The compaction loop of \<open>collapseBoard\<close> in column \<open>x\<close>:
  \<^verbatim>\<open>for (let y = GRID_SIZE - 1; y >= 0; y--)\<close>. The third argument is \<open>y + 1\<close>, the number
  of rows still to visit, so that \<open>0\<close> ends the loop.
\<close>

fun compactColumn :: "Board \<Rightarrow> nat \<Rightarrow> nat \<Rightarrow> nat \<Rightarrow> Gem list \<Rightarrow> Board \<times> nat \<times> Gem list" where
  "compactColumn board x 0 emptySpots fallingGems = (board, emptySpots, fallingGems)"
| "compactColumn board x (Suc y) emptySpots fallingGems =
     (if gem_type (board ! y ! x) = None
      then compactColumn board x y (emptySpots + 1) fallingGems
      else if emptySpots > 0 then
        (let gem = board ! y ! x;
             targetY = y + emptySpots;
             fallingGem = gem\<lparr>gem_x := x, gem_y := targetY,
                              renderY := Some (int (gem_y gem) * CELL_SIZE)\<rparr>;
             board1 = setCell board targetY x fallingGem;
             board2 = setCell board1 y x ((board1 ! y ! x)\<lparr>gem_type := None\<rparr>)
         in compactColumn board2 x y emptySpots (fallingGems @ [fallingGem]))
      else compactColumn board x y emptySpots fallingGems)"

text \<open>The refill loop: \<^verbatim>\<open>for (let y = 0; y < emptySpots; y++)\<close>, one draw per cell.\<close>

function refillColumn ::
  "Rng \<Rightarrow> Board \<Rightarrow> nat \<Rightarrow> nat \<Rightarrow> nat \<Rightarrow> Gem list \<Rightarrow> Board \<times> Rng \<times> Gem list" where
  "refillColumn rng board x emptySpots y fallingGems =
     (if y < emptySpots then
        (case getRandomGemType rng of (t, rng') \<Rightarrow>
           let gem = \<lparr>gem_x = x, gem_y = y, gem_type = Some t, selected = None,
                      renderY = Some (- (int emptySpots - int y + 1) * CELL_SIZE)\<rparr>
           in refillColumn rng' (setCell board y x gem) x emptySpots (y + 1)
                (fallingGems @ [gem]))
      else (board, rng, fallingGems))"
  by pat_completeness auto
termination
  by (relation "measure (\<lambda>(rng, board, x, emptySpots, y, fallingGems). emptySpots - y)") auto

text \<open>The loop over the columns: \<^verbatim>\<open>for (let x = 0; x < GRID_SIZE; x++)\<close>.\<close>

function collapseColumns :: "Rng \<Rightarrow> Board \<Rightarrow> nat \<Rightarrow> Gem list \<Rightarrow> Board \<times> Rng \<times> Gem list" where
  "collapseColumns rng board x fallingGems =
     (if x < GRID_SIZE then
        (case compactColumn board x GRID_SIZE 0 fallingGems of
           (board1, emptySpots, falling1) \<Rightarrow>
             (case refillColumn rng board1 x emptySpots 0 falling1 of
                (board2, rng', falling2) \<Rightarrow> collapseColumns rng' board2 (x + 1) falling2))
      else (board, rng, fallingGems))"
  by pat_completeness auto
termination
  by (relation "measure (\<lambda>(rng, board, x, fallingGems). GRID_SIZE - x)") auto

definition collapseBoard :: "Board \<Rightarrow> Rng \<Rightarrow> Board \<times> Rng \<times> Gem list" where
  "collapseBoard board rng = collapseColumns rng board 0 []"

subsection \<open>Swap validation and the resolution loop\<close>

text \<open>
  The four counting loops of \<open>hasChainOfThree\<close> visit the indices of a line outward from
  the cell and stop at the first cell of another type: \<open>countWhile\<close> is
  \<^verbatim>\<open>for (i of indices) { if (p(i)) count++; else break; }\<close>.
\<close>

fun countWhile :: "(nat \<Rightarrow> bool) \<Rightarrow> nat list \<Rightarrow> nat \<Rightarrow> nat" where
  "countWhile p [] count = count"
| "countWhile p (i # is) count = (if p i then countWhile p is (count + 1) else count)"

definition hasChainOfThree :: "Board \<Rightarrow> nat \<Rightarrow> nat \<Rightarrow> GemType option \<Rightarrow> bool" where
  "hasChainOfThree board x y type =
     (if type = None then False
      else
        let count1 = countWhile (\<lambda>i. gem_type (board ! i ! x) = type) (rev [0..<y]) 1;
            count2 = countWhile (\<lambda>i. gem_type (board ! i ! x) = type) [y + 1..<GRID_SIZE] count1
        in if count2 \<ge> 3 then True
           else
             let count3 = countWhile (\<lambda>i. gem_type (board ! y ! i) = type) (rev [0..<x]) 1;
                 count4 = countWhile (\<lambda>i. gem_type (board ! y ! i) = type) [x + 1..<GRID_SIZE] count3
             in if count4 \<ge> 3 then True else False)"

text \<open>
  The \<^verbatim>\<open>while (matches.length > 0)\<close> loop of the \<^verbatim>\<open>mouseup\<close> handler. No bound is enforced,
  so \<open>None\<close> stands for a cascade that never ends.
\<close>

partial_function (option) cascade ::
  "Board \<Rightarrow> Rng \<Rightarrow> int \<Rightarrow> Gem list \<Rightarrow> (Board \<times> Rng \<times> int) option" where
  "cascade board rng totalScore matches =
     (if length matches > 0 then
        (let totalScore' = totalScore + int (length matches) * 100;
             board1 = removeMatches board matches
         in case collapseBoard board1 rng of
              (board2, rng', fallingGems) \<Rightarrow>
                cascade board2 rng' totalScore' (findMatches board2))
      else Some (board, rng, totalScore))"

text \<open>
  The session: the module-level variables (each field \<open>gs_v\<close> is the variable \<^verbatim>\<open>v\<close>) and
  the random source.
\<close>

record GameState =
  gs_board :: Board
  gs_totalScore :: int
  gs_selectedGem :: "Gem option"
  gs_isDragging :: bool
  gs_offsetX :: int
  gs_offsetY :: int
  gs_rng :: Rng

text \<open>
  The \<^verbatim>\<open>mousedown\<close> handler. \<open>mouseX\<close> and \<open>mouseY\<close> are the pointer's pixel offsets in the
  canvas; \<^verbatim>\<open>Math.floor(mouseX / CELL_SIZE)\<close> is \<open>div\<close> on integers. \<^verbatim>\<open>board[y]?.[x]\<close> is
  \<^verbatim>\<open>undefined\<close> outside the arrays.
\<close>

definition mousedown :: "GameState \<Rightarrow> int \<Rightarrow> int \<Rightarrow> GameState" where
  "mousedown st mouseX mouseY =
     (let x = mouseX div CELL_SIZE;
          y = mouseY div CELL_SIZE
      in if 0 \<le> y \<and> nat y < length (gs_board st) \<and> 0 \<le> x \<and> nat x < length (gs_board st ! nat y)
         then (let gem = gs_board st ! nat y ! nat x
               in st\<lparr>gs_selectedGem := Some gem, gs_isDragging := True,
                      gs_offsetX := mouseX - int (gem_x gem) * CELL_SIZE,
                      gs_offsetY := mouseY - int (gem_y gem) * CELL_SIZE\<rparr>)
         else st)"

text \<open>
  The board after the two assignments under \<^verbatim>\<open>//Swap gems\<close>: the target's gem goes to the
  selected gem's stored coordinates, the selected gem to \<open>(newX, newY)\<close>, each a copy with
  its coordinates rewritten.
\<close>

definition swapGems :: "Board \<Rightarrow> Gem \<Rightarrow> nat \<Rightarrow> nat \<Rightarrow> Board" where
  "swapGems board sel newX newY =
     (let targetGem = board ! newY ! newX;
          board1 = setCell board (gem_y sel) (gem_x sel)
                     (targetGem\<lparr>gem_x := gem_x sel, gem_y := gem_y sel\<rparr>)
      in setCell board1 newY newX (sel\<lparr>gem_x := newX, gem_y := newY\<rparr>))"

text \<open>The constant \<^verbatim>\<open>canMove\<close>, computed on the board after the swap.\<close>

definition canMove :: "Board \<Rightarrow> Gem \<Rightarrow> Gem \<Rightarrow> nat \<Rightarrow> nat \<Rightarrow> bool" where
  "canMove swapped sel targetGem newX newY =
     (hasChainOfThree swapped newX newY (gem_type sel) \<or>
      hasChainOfThree swapped (gem_x sel) (gem_y sel) (gem_type targetGem))"

text \<open>\<^verbatim>\<open>isAdjacent\<close> and the bounds test that guard the swap.\<close>

definition legalTarget :: "Gem \<Rightarrow> int \<Rightarrow> int \<Rightarrow> bool" where
  "legalTarget sel newX newY =
     (let dx = \<bar>newX - int (gem_x sel)\<bar>;
          dy = \<bar>newY - int (gem_y sel)\<bar>;
          isAdjacent = ((dx = 1 \<and> dy = 0) \<or> (dx = 0 \<and> dy = 1))
      in newX \<ge> 0 \<and> newX < int GRID_SIZE \<and> newY \<ge> 0 \<and> newY < int GRID_SIZE \<and> isAdjacent \<and>
         (newX \<noteq> int (gem_x sel) \<or> newY \<noteq> int (gem_y sel)))"

text \<open>
  The \<^verbatim>\<open>mouseup\<close> handler. The early \<^verbatim>\<open>return\<close> leaves everything as it is; every other
  path ends with \<^verbatim>\<open>isDragging = false; selectedGem = null\<close>.
\<close>

definition mouseup :: "GameState \<Rightarrow> int \<Rightarrow> int \<Rightarrow> GameState option" where
  "mouseup st mouseX mouseY =
     (case gs_selectedGem st of
        None \<Rightarrow> Some st
      | Some sel \<Rightarrow>
          if \<not> gs_isDragging st then Some st
          else
            let newX = mouseX div CELL_SIZE;
                newY = mouseY div CELL_SIZE
            in if legalTarget sel newX newY then
                 (let targetGem = gs_board st ! nat newY ! nat newX;
                      swapped = swapGems (gs_board st) sel (nat newX) (nat newY)
                  in if \<not> canMove swapped sel targetGem (nat newX) (nat newY) then
                       (let board3 = setCell swapped (nat newY) (nat newX) targetGem;
                            board4 = setCell board3 (gem_y sel) (gem_x sel) sel
                        in Some (st\<lparr>gs_board := board4, gs_isDragging := False, gs_selectedGem := None\<rparr>))
                     else
                       (case cascade swapped (gs_rng st) (gs_totalScore st) (findMatches swapped) of
                          None \<Rightarrow> None
                        | Some (board', rng', totalScore') \<Rightarrow>
                            Some (st\<lparr>gs_board := board', gs_rng := rng', gs_totalScore := totalScore',
                                     gs_isDragging := False, gs_selectedGem := None\<rparr>)))
               else Some (st\<lparr>gs_isDragging := False, gs_selectedGem := None\<rparr>))"

subsection \<open>Notions used by the statements and their proofs\<close>

definition wf_board :: "'a list list \<Rightarrow> bool" where
  "wf_board m \<longleftrightarrow> length m = GRID_SIZE \<and> (\<forall>row \<in> set m. length row = GRID_SIZE)"

definition tripleH :: "Board \<Rightarrow> nat \<Rightarrow> nat \<Rightarrow> bool" where
  "tripleH board y x \<longleftrightarrow>
     gem_type (board ! y ! x) \<noteq> None \<and>
     gem_type (board ! y ! x) = gem_type (board ! y ! (x + 1)) \<and>
     gem_type (board ! y ! x) = gem_type (board ! y ! (x + 2))"

declare extendRight.simps [simp del] scanRow.simps [simp del]

definition covH :: "Board \<Rightarrow> nat \<Rightarrow> nat \<Rightarrow> nat \<Rightarrow> bool" where
  "covH board y s x \<longleftrightarrow>
     s < GRID_SIZE - 2 \<and> tripleH board y s \<and> s \<le> x \<and>
     (\<forall>j. s \<le> j \<and> j \<le> x \<longrightarrow> gem_type (board ! y ! j) = gem_type (board ! y ! s))"

definition tripleV :: "Board \<Rightarrow> nat \<Rightarrow> nat \<Rightarrow> bool" where
  "tripleV board x y \<longleftrightarrow>
     gem_type (board ! y ! x) \<noteq> None \<and>
     gem_type (board ! y ! x) = gem_type (board ! (y + 1) ! x) \<and>
     gem_type (board ! y ! x) = gem_type (board ! (y + 2) ! x)"

declare extendDown.simps [simp del] scanColumn.simps [simp del]

definition covV :: "Board \<Rightarrow> nat \<Rightarrow> nat \<Rightarrow> nat \<Rightarrow> bool" where
  "covV board x s y \<longleftrightarrow>
     s < GRID_SIZE - 2 \<and> tripleV board x s \<and> s \<le> y \<and>
     (\<forall>j. s \<le> j \<and> j \<le> y \<longrightarrow> gem_type (board ! j ! x) = gem_type (board ! s ! x))"

declare scanRows.simps [simp del] scanColumns.simps [simp del]
declare collectRow.simps [simp del] collectRows.simps [simp del]

definition hrun :: "Board \<Rightarrow> nat \<Rightarrow> nat \<Rightarrow> nat \<Rightarrow> bool" where
  "hrun board y lo hi \<longleftrightarrow>
     lo + 2 \<le> hi \<and> hi < GRID_SIZE \<and> gem_type (board ! y ! lo) \<noteq> None \<and>
     (\<forall>k \<in> {lo..hi}. gem_type (board ! y ! k) = gem_type (board ! y ! lo))"

definition vrun :: "Board \<Rightarrow> nat \<Rightarrow> nat \<Rightarrow> nat \<Rightarrow> bool" where
  "vrun board x lo hi \<longleftrightarrow>
     lo + 2 \<le> hi \<and> hi < GRID_SIZE \<and> gem_type (board ! lo ! x) \<noteq> None \<and>
     (\<forall>k \<in> {lo..hi}. gem_type (board ! k ! x) = gem_type (board ! lo ! x))"

definition inRunH :: "Board \<Rightarrow> nat \<Rightarrow> nat \<Rightarrow> bool" where
  "inRunH board y x \<longleftrightarrow> (\<exists>lo \<in> {0..x}. \<exists>hi \<in> {x..<GRID_SIZE}. hrun board y lo hi)"

definition inRunV :: "Board \<Rightarrow> nat \<Rightarrow> nat \<Rightarrow> bool" where
  "inRunV board y x \<longleftrightarrow> (\<exists>lo \<in> {0..y}. \<exists>hi \<in> {y..<GRID_SIZE}. vrun board x lo hi)"

definition inRun :: "Board \<Rightarrow> nat \<Rightarrow> nat \<Rightarrow> bool" where
  "inRun board y x \<longleftrightarrow> inRunH board y x \<or> inRunV board y x"

definition coherent :: "Board \<Rightarrow> bool" where
  "coherent board \<longleftrightarrow>
     (\<forall>y \<in> {0..<length board}. \<forall>x \<in> {0..<length (board ! y)}.
        gem_x (board ! y ! x) = x \<and> gem_y (board ! y ! x) = y)"

definition fullBoard :: "Board \<Rightarrow> bool" where
  "fullBoard board \<longleftrightarrow> (\<forall>row \<in> set board. \<forall>g \<in> set row. gem_type g \<noteq> None)"

definition rejected :: "Board \<Rightarrow> nat \<Rightarrow> nat \<Rightarrow> Gem list \<Rightarrow> GemType \<Rightarrow> bool" where
  "rejected board x y currentRow t \<longleftrightarrow>
     (x \<ge> 2 \<and> typeAt currentRow (x - 1) = Some t \<and> typeAt currentRow (x - 2) = Some t) \<or>
     (y \<ge> 2 \<and> typeAt (board ! (y - 1)) x = Some t \<and> typeAt (board ! (y - 2)) x = Some t)"

declare initRow.simps [simp del] initRows.simps [simp del]

definition rowInv :: "Board \<Rightarrow> nat \<Rightarrow> Gem list \<Rightarrow> bool" where
  "rowInv board y row \<longleftrightarrow>
     (\<forall>i<length row. gem_x (row ! i) = i \<and> gem_y (row ! i) = y \<and> gem_type (row ! i) \<noteq> None) \<and>
     (\<forall>i. i + 2 < length row \<longrightarrow>
        \<not> (gem_type (row ! i) = gem_type (row ! (i + 1)) \<and> gem_type (row ! i) = gem_type (row ! (i + 2)))) \<and>
     (2 \<le> y \<longrightarrow> (\<forall>i<length row.
        \<not> (typeAt (board ! (y - 1)) i = gem_type (row ! i) \<and> typeAt (board ! (y - 2)) i = gem_type (row ! i))))"

definition boardInv :: "Board \<Rightarrow> bool" where
  "boardInv board \<longleftrightarrow>
     (\<forall>y<length board. length (board ! y) = GRID_SIZE \<and> rowInv board y (board ! y))"

definition colTypes :: "Board \<Rightarrow> nat \<Rightarrow> nat \<Rightarrow> GemType option list" where
  "colTypes board x n = map (\<lambda>y. gem_type (board ! y ! x)) [0..<n]"

declare compactColumn.simps(2) [simp del]

definition fallenGem :: "Board \<Rightarrow> nat \<Rightarrow> nat \<Rightarrow> nat \<Rightarrow> Gem" where
  "fallenGem board x y e =
     (board ! y ! x)\<lparr>gem_x := x, gem_y := y + e,
                      renderY := Some (int (gem_y (board ! y ! x)) * CELL_SIZE)\<rparr>"

definition fallStep :: "Board \<Rightarrow> nat \<Rightarrow> nat \<Rightarrow> nat \<Rightarrow> Board" where
  "fallStep board x y e =
     setCell (setCell board (y + e) x (fallenGem board x y e)) y x
       ((setCell board (y + e) x (fallenGem board x y e) ! y ! x)\<lparr>gem_type := None\<rparr>)"

declare refillColumn.simps [simp del] collapseColumns.simps [simp del]

definition freshGem :: "nat \<Rightarrow> nat \<Rightarrow> nat \<Rightarrow> GemType \<Rightarrow> Gem" where
  "freshGem x emptySpots y t =
     \<lparr>gem_x = x, gem_y = y, gem_type = Some t, selected = None,
      renderY = Some (- (int emptySpots - int y + 1) * CELL_SIZE)\<rparr>"

definition emptyCount :: "Board \<Rightarrow> nat \<Rightarrow> nat" where
  "emptyCount board x = length (filter (\<lambda>t. t = None) (colTypes board x GRID_SIZE))"

definition drawsBetween :: "Board \<Rightarrow> nat \<Rightarrow> nat \<Rightarrow> nat" where
  "drawsBetween board x0 x = sum_list (map (emptyCount board) [x0..<x])"

definition colCoherent :: "Board \<Rightarrow> nat \<Rightarrow> bool" where
  "colCoherent board x \<longleftrightarrow>
     (\<forall>y<GRID_SIZE. gem_x (board ! y ! x) = x \<and> gem_y (board ! y ! x) = y)"

definition cascadeStep :: "Board \<times> Rng \<Rightarrow> Board \<times> Rng" where
  "cascadeStep s =
     (case s of (board, rng) \<Rightarrow>
        (case collapseBoard (removeMatches board (findMatches board)) rng of
           (board2, rng', fallingGems) \<Rightarrow> (board2, rng')))"

definition cascadeState :: "nat \<Rightarrow> Board \<Rightarrow> Rng \<Rightarrow> Board \<times> Rng" where
  "cascadeState n board rng = (cascadeStep ^^ n) (board, rng)"

definition matchCount :: "nat \<Rightarrow> Board \<Rightarrow> Rng \<Rightarrow> nat" where
  "matchCount i board rng = length (findMatches (fst (cascadeState i board rng)))"

definition selectionOk :: "Board \<Rightarrow> Gem \<Rightarrow> bool" where
  "selectionOk board sel \<longleftrightarrow>
     gem_x sel < GRID_SIZE \<and> gem_y sel < GRID_SIZE \<and> board ! gem_y sel ! gem_x sel = sel"

definition sessionInv :: "GameState \<Rightarrow> bool" where
  "sessionInv st \<longleftrightarrow>
     wf_board (gs_board st) \<and> coherent (gs_board st) \<and> fullBoard (gs_board st) \<and>
     (case gs_selectedGem st of None \<Rightarrow> True | Some sel \<Rightarrow> selectionOk (gs_board st) sel)"

inductive reachable :: "GameState \<Rightarrow> bool" where
  start: "initBoard rng0 = Some (board, rng1) \<Longrightarrow>
          reachable \<lparr>gs_board = board, gs_totalScore = 0, gs_selectedGem = None,
                      gs_isDragging = False, gs_offsetX = 0, gs_offsetY = 0, gs_rng = rng1\<rparr>"
| down: "reachable st \<Longrightarrow> reachable (mousedown st mouseX mouseY)"
| up: "reachable st \<Longrightarrow> mouseup st mouseX mouseY = Some st' \<Longrightarrow> reachable st'"

definition demoGem :: "nat \<Rightarrow> nat \<Rightarrow> GemType \<Rightarrow> Gem" where
  "demoGem x y t = \<lparr>gem_x = x, gem_y = y, gem_type = Some t, selected = Some False, renderY = None\<rparr>"

definition rowOf :: "nat \<Rightarrow> GemType list \<Rightarrow> Gem list" where
  "rowOf y ts = map (\<lambda>(x, t). demoGem x y t) (zip [0..<length ts] ts)"

definition boardOf :: "GemType list list \<Rightarrow> Board" where
  "boardOf rows = map (\<lambda>(y, ts). rowOf y ts) (zip [0..<length rows] rows)"

definition demoRows :: "GemType list list" where
  "demoRows =
     [[G0, G0, G1, G0, G2, G3, G4, G1],
      [G2, G3, G4, G0, G1, G2, G3, G4],
      [G4, G0, G1, G2, G3, G4, G0, G1],
      [G1, G2, G3, G4, G0, G1, G2, G3],
      [G3, G4, G0, G1, G2, G3, G4, G0],
      [G0, G1, G2, G3, G4, G0, G1, G2],
      [G2, G3, G4, G0, G1, G2, G3, G4],
      [G4, G0, G1, G2, G3, G4, G0, G1]]"

definition demoBoard :: Board where
  "demoBoard = boardOf demoRows"

definition demoState :: "Board \<Rightarrow> Rng \<Rightarrow> GameState" where
  "demoState b r = \<lparr>gs_board = b, gs_totalScore = 0, gs_selectedGem = None, gs_isDragging = False,
                    gs_offsetX = 0, gs_offsetY = 0, gs_rng = r\<rparr>"

definition demoSwapped :: Board where
  "demoSwapped = swapGems demoBoard (demoGem 3 0 G0) 2 0"

definition demoRefilled :: "GemType \<Rightarrow> GemType \<Rightarrow> GemType \<Rightarrow> Board" where
  "demoRefilled t0 t1 t2 =
     ([freshGem 0 1 0 t0, freshGem 1 1 0 t1, freshGem 2 1 0 t2] @ drop 3 (demoSwapped ! 0))
       # tl demoSwapped"

definition demoRest :: Rng where
  "demoRest = G1 ## G2 ## G3 ## sconst G0"

definition demoDown :: "Rng \<Rightarrow> GameState" where
  "demoDown r = mousedown (demoState demoBoard r) 350 50"

section \<open>Properties\<close>

lemma wf_board_nth:
  "wf_board m \<longleftrightarrow> length m = GRID_SIZE \<and> (\<forall>y<GRID_SIZE. length (m ! y) = GRID_SIZE)"
  by (auto simp: wf_board_def all_set_conv_all_nth)

lemma wf_boardD: "wf_board m \<Longrightarrow> y < GRID_SIZE \<Longrightarrow> length (m ! y) = GRID_SIZE"
  by (simp add: wf_board_nth)

lemma wf_board_length: "wf_board m \<Longrightarrow> length m = GRID_SIZE"
  by (simp add: wf_board_def)

lemma length_setCell [simp]: "length (setCell m y x v) = length m"
  by (simp add: setCell_def)

lemma length_nth_setCell [simp]: "y' < length m \<Longrightarrow> length (setCell m y x v ! y') = length (m ! y')"
  by (cases "y' = y") (simp_all add: setCell_def)

lemma wf_board_setCell [simp]: "wf_board m \<Longrightarrow> wf_board (setCell m y x v)"
  by (simp add: wf_board_nth)

lemma nth_setCell:
  "y' < length m \<Longrightarrow> x' < length (m ! y') \<Longrightarrow>
   setCell m y x v ! y' ! x' = (if y' = y \<and> x' = x then v else m ! y' ! x')"
  by (cases "y' = y"; cases "x' = x") (simp_all add: setCell_def)

lemma nth_setCell_wf:
  "wf_board m \<Longrightarrow> y' < GRID_SIZE \<Longrightarrow> x' < GRID_SIZE \<Longrightarrow>
   setCell m y x v ! y' ! x' = (if y' = y \<and> x' = x then v else m ! y' ! x')"
  by (rule nth_setCell) (simp_all add: wf_board_nth)

lemma wf_extendRight: "wf_board m \<Longrightarrow> wf_board (extendRight board m y t k)"
  by (induction board m y t k rule: extendRight.induct) (subst extendRight.simps, simp)

lemma nth_extendRight:
  "wf_board m \<Longrightarrow> y' < GRID_SIZE \<Longrightarrow> x' < GRID_SIZE \<Longrightarrow>
   extendRight board m y t k ! y' ! x' =
     (m ! y' ! x' \<or> (y' = y \<and> k \<le> x' \<and> (\<forall>j. k \<le> j \<and> j \<le> x' \<longrightarrow> gem_type (board ! y ! j) = t)))"
proof (induction board m y t k rule: extendRight.induct)
  case (1 board matched y type k)
  show ?case
  proof (cases "k < GRID_SIZE \<and> gem_type (board ! y ! k) = type")
    case True
    have "extendRight board matched y type k ! y' ! x' =
          extendRight board (setCell matched y k True) y type (k + 1) ! y' ! x'"
      using True by (subst extendRight.simps) simp
    also have "\<dots> = (setCell matched y k True ! y' ! x' \<or>
        (y' = y \<and> k + 1 \<le> x' \<and> (\<forall>j. k + 1 \<le> j \<and> j \<le> x' \<longrightarrow> gem_type (board ! y ! j) = type)))"
      using True 1 by simp
    also have "\<dots> = (matched ! y' ! x' \<or> (y' = y \<and> k \<le> x' \<and>
        (\<forall>j. k \<le> j \<and> j \<le> x' \<longrightarrow> gem_type (board ! y ! j) = type)))"
    proof -
      have *: "(\<forall>j. k \<le> j \<and> j \<le> x' \<longrightarrow> gem_type (board ! y ! j) = type) \<longleftrightarrow>
               (k \<le> x' \<longrightarrow> (\<forall>j. k + 1 \<le> j \<and> j \<le> x' \<longrightarrow> gem_type (board ! y ! j) = type))"
      proof (intro iffI allI impI)
        fix j assume "k \<le> x' \<longrightarrow> (\<forall>j. k + 1 \<le> j \<and> j \<le> x' \<longrightarrow> gem_type (board ! y ! j) = type)"
          and "k \<le> j \<and> j \<le> x'"
        then show "gem_type (board ! y ! j) = type"
          using True by (cases "j = k") auto
      qed auto
      show ?thesis
        using 1(2,3,4) by (auto simp: nth_setCell_wf *)
    qed
    finally show ?thesis .
  next
    case False
    have "extendRight board matched y type k = matched"
      using False by (subst extendRight.simps) auto
    moreover have "\<not> (k \<le> x' \<and> (\<forall>j. k \<le> j \<and> j \<le> x' \<longrightarrow> gem_type (board ! y ! j) = type))"
      using False 1(4) by auto
    ultimately show ?thesis by auto
  qed
qed

lemma scanRow_unfold:
  "scanRow board m y x =
     (if x < GRID_SIZE - 2 then
        (if tripleH board y x
         then scanRow board
                (extendRight board
                   (setCell (setCell (setCell m y x True) y (x + 1) True) y (x + 2) True)
                   y (gem_type (board ! y ! x)) (x + 3))
                y (x + 1)
         else scanRow board m y (x + 1))
      else m)"
  by (subst scanRow.simps) (simp only: Let_def tripleH_def)

lemma wf_scanRow: "wf_board m \<Longrightarrow> wf_board (scanRow board m y x)"
proof (induction "GRID_SIZE - x" arbitrary: m x)
  case 0
  then show ?case by (subst scanRow_unfold) (simp add: GRID_SIZE_def)
next
  case (Suc n)
  from Suc(2) have n: "n = GRID_SIZE - (x + 1)" by simp
  show ?case
    using Suc(1)[OF n] Suc(3) by (subst scanRow_unfold) (simp add: wf_extendRight)
qed

lemma covH_start:
  assumes "tripleH board y x"
  shows "(x \<le> x' \<and> (\<forall>j. x \<le> j \<and> j \<le> x' \<longrightarrow> gem_type (board ! y ! j) = gem_type (board ! y ! x))) \<longleftrightarrow>
         (x' = x \<or> x' = x + 1 \<or> x' = x + 2 \<or>
          (x + 3 \<le> x' \<and> (\<forall>j. x + 3 \<le> j \<and> j \<le> x' \<longrightarrow> gem_type (board ! y ! j) = gem_type (board ! y ! x))))"
    (is "?L \<longleftrightarrow> ?R")
proof
  assume L: ?L
  then have le: "x \<le> x'"
    and all: "\<And>j. x \<le> j \<Longrightarrow> j \<le> x' \<Longrightarrow> gem_type (board ! y ! j) = gem_type (board ! y ! x)"
    by blast+
  show ?R
  proof (cases "x + 3 \<le> x'")
    case True
    have "\<forall>j. x + 3 \<le> j \<and> j \<le> x' \<longrightarrow> gem_type (board ! y ! j) = gem_type (board ! y ! x)"
    proof (intro allI impI)
      fix j assume "x + 3 \<le> j \<and> j \<le> x'"
      then have "x \<le> j" "j \<le> x'" by simp_all
      then show "gem_type (board ! y ! j) = gem_type (board ! y ! x)" by (rule all)
    qed
    with True show ?thesis by blast
  next
    case False
    with le have "x' = x \<or> x' = x + 1 \<or> x' = x + 2" by arith
    then show ?thesis by blast
  qed
next
  assume R: ?R
  have t: "gem_type (board ! y ! (x + 1)) = gem_type (board ! y ! x)"
          "gem_type (board ! y ! (x + 2)) = gem_type (board ! y ! x)"
    using assms unfolding tripleH_def by metis+
  have small: "gem_type (board ! y ! j) = gem_type (board ! y ! x)" if "x \<le> j" "j \<le> x + 2" for j
  proof -
    from that have "j = x \<or> j = x + 1 \<or> j = x + 2" by arith
    then show ?thesis using t by blast
  qed
  have le: "x \<le> x'" using R by (elim disjE conjE) simp_all
  have "gem_type (board ! y ! j) = gem_type (board ! y ! x)" if "x \<le> j" "j \<le> x'" for j
  proof (cases "j \<le> x + 2")
    case True
    then show ?thesis by (rule small[OF that(1)])
  next
    case False
    then have j3: "x + 3 \<le> j" by simp
    with that have "x + 3 \<le> x'" by simp
    with R have "\<forall>j. x + 3 \<le> j \<and> j \<le> x' \<longrightarrow> gem_type (board ! y ! j) = gem_type (board ! y ! x)"
      by (elim disjE conjE) simp_all
    with j3 that show ?thesis by blast
  qed
  with le show ?L by blast
qed

lemma covH_bound: "covH board y s x \<Longrightarrow> s < GRID_SIZE - 2"
  by (simp add: covH_def)

lemma covH_triple: "covH board y s x \<Longrightarrow> tripleH board y s"
  by (simp add: covH_def)

lemma nth_scanRow:
  "wf_board m \<Longrightarrow> y' < GRID_SIZE \<Longrightarrow> x' < GRID_SIZE \<Longrightarrow>
   scanRow board m y x ! y' ! x' =
     (m ! y' ! x' \<or> (y' = y \<and> (\<exists>s. x \<le> s \<and> covH board y s x')))"
proof (induction "GRID_SIZE - x" arbitrary: m x)
  case 0
  then have "scanRow board m y x = m"
    by (subst scanRow_unfold) (simp add: GRID_SIZE_def)
  moreover have "\<not> (\<exists>s. x \<le> s \<and> covH board y s x')"
    using 0(1) by (auto dest!: covH_bound)
  ultimately show ?case by auto
next
  case (Suc n)
  from Suc(2) have n: "n = GRID_SIZE - (x + 1)" by simp
  show ?case
  proof (cases "x < GRID_SIZE - 2")
    case inr: True
    show ?thesis
    proof (cases "tripleH board y x")
      case True
      define M where "M = extendRight board
          (setCell (setCell (setCell m y x True) y (x + 1) True) y (x + 2) True)
          y (gem_type (board ! y ! x)) (x + 3)"
      have wfM: "wf_board M"
        unfolding M_def using Suc.prems(1) by (simp add: wf_extendRight)
      have unf: "scanRow board m y x = scanRow board M y (x + 1)"
        using inr True unfolding M_def by (subst scanRow_unfold) simp
      have IH: "scanRow board M y (x + 1) ! y' ! x' =
          (M ! y' ! x' \<or> (y' = y \<and> (\<exists>s. x + 1 \<le> s \<and> covH board y s x')))"
        by (rule Suc(1)[OF n wfM Suc.prems(2,3)])
      let ?S = "setCell (setCell (setCell m y x True) y (x + 1) True) y (x + 2) True"
      let ?tail = "x + 3 \<le> x' \<and> (\<forall>j. x + 3 \<le> j \<and> j \<le> x' \<longrightarrow>
          gem_type (board ! y ! j) = gem_type (board ! y ! x))"
      have wfS: "wf_board ?S" using Suc.prems(1) by simp
      have S: "?S ! y' ! x' = (m ! y' ! x' \<or> (y' = y \<and> (x' = x \<or> x' = x + 1 \<or> x' = x + 2)))"
        using Suc.prems by (simp add: nth_setCell_wf) blast
      have "M ! y' ! x' = (?S ! y' ! x' \<or> (y' = y \<and> ?tail))"
        unfolding M_def by (rule nth_extendRight[OF wfS Suc.prems(2,3)])
      also have "\<dots> = (m ! y' ! x' \<or> (y' = y \<and> (x' = x \<or> x' = x + 1 \<or> x' = x + 2 \<or> ?tail)))"
        unfolding S by blast
      also have "(x' = x \<or> x' = x + 1 \<or> x' = x + 2 \<or> ?tail) = covH board y x x'"
        unfolding covH_def covH_start[OF True, of x', symmetric] using inr True by blast
      finally have Mnth: "M ! y' ! x' = (m ! y' ! x' \<or> (y' = y \<and> covH board y x x'))" .
      have ex: "(\<exists>s. x \<le> s \<and> covH board y s x') \<longleftrightarrow> (covH board y x x' \<or> (\<exists>s. x + 1 \<le> s \<and> covH board y s x'))"
      proof
        assume "\<exists>s. x \<le> s \<and> covH board y s x'"
        then obtain s where s: "x \<le> s" "covH board y s x'" by blast
        show "covH board y x x' \<or> (\<exists>s. x + 1 \<le> s \<and> covH board y s x')"
        proof (cases "s = x")
          case True
          with s show ?thesis by simp
        next
          case False
          with s have "x + 1 \<le> s" by simp
          with s show ?thesis by blast
        qed
      next
        assume "covH board y x x' \<or> (\<exists>s. x + 1 \<le> s \<and> covH board y s x')"
        then show "\<exists>s. x \<le> s \<and> covH board y s x'"
        proof
          assume "covH board y x x'"
          then show ?thesis by (intro exI[of _ x]) simp
        next
          assume "\<exists>s. x + 1 \<le> s \<and> covH board y s x'"
          then obtain s where "x + 1 \<le> s" "covH board y s x'" by blast
          then show ?thesis by (intro exI[of _ s]) simp
        qed
      qed
      show ?thesis
        unfolding unf IH Mnth ex by blast
    next
      case False
      have unf: "scanRow board m y x = scanRow board m y (x + 1)"
        using inr False by (subst scanRow_unfold) simp
      have IH: "scanRow board m y (x + 1) ! y' ! x' =
          (m ! y' ! x' \<or> (y' = y \<and> (\<exists>s. x + 1 \<le> s \<and> covH board y s x')))"
        by (rule Suc(1)[OF n Suc.prems])
      have ex: "(\<exists>s. x \<le> s \<and> covH board y s x') \<longleftrightarrow> (\<exists>s. x + 1 \<le> s \<and> covH board y s x')"
      proof
        assume "\<exists>s. x \<le> s \<and> covH board y s x'"
        then obtain s where s: "x \<le> s" "covH board y s x'" by blast
        with False have "s \<noteq> x" by (auto dest: covH_triple)
        with s have "x + 1 \<le> s" by simp
        with s show "\<exists>s. x + 1 \<le> s \<and> covH board y s x'" by blast
      next
        assume "\<exists>s. x + 1 \<le> s \<and> covH board y s x'"
        then obtain s where "x + 1 \<le> s" "covH board y s x'" by blast
        then show "\<exists>s. x \<le> s \<and> covH board y s x'" by (intro exI[of _ s]) simp
      qed
      show ?thesis unfolding unf IH ex ..
    qed
  next
    case False
    have "scanRow board m y x = m"
      using False by (subst scanRow_unfold) simp
    moreover have "\<not> (\<exists>s. x \<le> s \<and> covH board y s x')"
      using False by (auto simp: covH_def)
    ultimately show ?thesis by auto
  qed
qed

lemma wf_extendDown: "wf_board m \<Longrightarrow> wf_board (extendDown board m x t k)"
  by (induction board m x t k rule: extendDown.induct) (subst extendDown.simps, simp)

lemma nth_extendDown:
  "wf_board m \<Longrightarrow> x' < GRID_SIZE \<Longrightarrow> y' < GRID_SIZE \<Longrightarrow>
   extendDown board m x t k ! y' ! x' =
     (m ! y' ! x' \<or> (x' = x \<and> k \<le> y' \<and> (\<forall>j. k \<le> j \<and> j \<le> y' \<longrightarrow> gem_type (board ! j ! x) = t)))"
proof (induction board m x t k rule: extendDown.induct)
  case (1 board matched x type k)
  show ?case
  proof (cases "k < GRID_SIZE \<and> gem_type (board ! k ! x) = type")
    case True
    have "extendDown board matched x type k ! y' ! x' =
          extendDown board (setCell matched k x True) x type (k + 1) ! y' ! x'"
      using True by (subst extendDown.simps) simp
    also have "\<dots> = (setCell matched k x True ! y' ! x' \<or>
        (x' = x \<and> k + 1 \<le> y' \<and> (\<forall>j. k + 1 \<le> j \<and> j \<le> y' \<longrightarrow> gem_type (board ! j ! x) = type)))"
      using True 1 by simp
    also have "\<dots> = (matched ! y' ! x' \<or> (x' = x \<and> k \<le> y' \<and>
        (\<forall>j. k \<le> j \<and> j \<le> y' \<longrightarrow> gem_type (board ! j ! x) = type)))"
    proof -
      have *: "(\<forall>j. k \<le> j \<and> j \<le> y' \<longrightarrow> gem_type (board ! j ! x) = type) \<longleftrightarrow>
               (k \<le> y' \<longrightarrow> (\<forall>j. k + 1 \<le> j \<and> j \<le> y' \<longrightarrow> gem_type (board ! j ! x) = type))"
      proof (intro iffI allI impI)
        fix j assume "k \<le> y' \<longrightarrow> (\<forall>j. k + 1 \<le> j \<and> j \<le> y' \<longrightarrow> gem_type (board ! j ! x) = type)"
          and "k \<le> j \<and> j \<le> y'"
        then show "gem_type (board ! j ! x) = type"
          using True by (cases "j = k") auto
      qed auto
      show ?thesis
        using 1(2,3,4) by (auto simp: nth_setCell_wf *)
    qed
    finally show ?thesis .
  next
    case False
    have "extendDown board matched x type k = matched"
      using False by (subst extendDown.simps) auto
    moreover have "\<not> (k \<le> y' \<and> (\<forall>j. k \<le> j \<and> j \<le> y' \<longrightarrow> gem_type (board ! j ! x) = type))"
      using False 1(4) by auto
    ultimately show ?thesis by auto
  qed
qed

lemma scanColumn_unfold:
  "scanColumn board m x y =
     (if y < GRID_SIZE - 2 then
        (if tripleV board x y
         then scanColumn board
                (extendDown board
                   (setCell (setCell (setCell m y x True) (y + 1) x True) (y + 2) x True)
                   x (gem_type (board ! y ! x)) (y + 3))
                x (y + 1)
         else scanColumn board m x (y + 1))
      else m)"
  by (subst scanColumn.simps) (simp only: Let_def tripleV_def)

lemma wf_scanColumn: "wf_board m \<Longrightarrow> wf_board (scanColumn board m x y)"
proof (induction "GRID_SIZE - y" arbitrary: m y)
  case 0
  then show ?case by (subst scanColumn_unfold) (simp add: GRID_SIZE_def)
next
  case (Suc n)
  from Suc(2) have n: "n = GRID_SIZE - (y + 1)" by simp
  show ?case
    using Suc(1)[OF n] Suc(3) by (subst scanColumn_unfold) (simp add: wf_extendDown)
qed

lemma covV_start:
  assumes "tripleV board x y"
  shows "(y \<le> y' \<and> (\<forall>j. y \<le> j \<and> j \<le> y' \<longrightarrow> gem_type (board ! j ! x) = gem_type (board ! y ! x))) \<longleftrightarrow>
         (y' = y \<or> y' = y + 1 \<or> y' = y + 2 \<or>
          (y + 3 \<le> y' \<and> (\<forall>j. y + 3 \<le> j \<and> j \<le> y' \<longrightarrow> gem_type (board ! j ! x) = gem_type (board ! y ! x))))"
    (is "?L \<longleftrightarrow> ?R")
proof
  assume L: ?L
  then have le: "y \<le> y'"
    and all: "\<And>j. y \<le> j \<Longrightarrow> j \<le> y' \<Longrightarrow> gem_type (board ! j ! x) = gem_type (board ! y ! x)"
    by blast+
  show ?R
  proof (cases "y + 3 \<le> y'")
    case True
    have "\<forall>j. y + 3 \<le> j \<and> j \<le> y' \<longrightarrow> gem_type (board ! j ! x) = gem_type (board ! y ! x)"
    proof (intro allI impI)
      fix j assume "y + 3 \<le> j \<and> j \<le> y'"
      then have "y \<le> j" "j \<le> y'" by simp_all
      then show "gem_type (board ! j ! x) = gem_type (board ! y ! x)" by (rule all)
    qed
    with True show ?thesis by blast
  next
    case False
    with le have "y' = y \<or> y' = y + 1 \<or> y' = y + 2" by arith
    then show ?thesis by blast
  qed
next
  assume R: ?R
  have t: "gem_type (board ! (y + 1) ! x) = gem_type (board ! y ! x)"
          "gem_type (board ! (y + 2) ! x) = gem_type (board ! y ! x)"
    using assms unfolding tripleV_def by metis+
  have small: "gem_type (board ! j ! x) = gem_type (board ! y ! x)" if "y \<le> j" "j \<le> y + 2" for j
  proof -
    from that have "j = y \<or> j = y + 1 \<or> j = y + 2" by arith
    then show ?thesis using t by blast
  qed
  have le: "y \<le> y'" using R by (elim disjE conjE) simp_all
  have "gem_type (board ! j ! x) = gem_type (board ! y ! x)" if "y \<le> j" "j \<le> y'" for j
  proof (cases "j \<le> y + 2")
    case True
    then show ?thesis by (rule small[OF that(1)])
  next
    case False
    then have j3: "y + 3 \<le> j" by simp
    with that have "y + 3 \<le> y'" by simp
    with R have "\<forall>j. y + 3 \<le> j \<and> j \<le> y' \<longrightarrow> gem_type (board ! j ! x) = gem_type (board ! y ! x)"
      by (elim disjE conjE) simp_all
    with j3 that show ?thesis by blast
  qed
  with le show ?L by blast
qed

lemma covV_bound: "covV board x s y \<Longrightarrow> s < GRID_SIZE - 2"
  by (simp add: covV_def)

lemma covV_triple: "covV board x s y \<Longrightarrow> tripleV board x s"
  by (simp add: covV_def)

lemma nth_scanColumn:
  "wf_board m \<Longrightarrow> x' < GRID_SIZE \<Longrightarrow> y' < GRID_SIZE \<Longrightarrow>
   scanColumn board m x y ! y' ! x' =
     (m ! y' ! x' \<or> (x' = x \<and> (\<exists>s. y \<le> s \<and> covV board x s y')))"
proof (induction "GRID_SIZE - y" arbitrary: m y)
  case 0
  then have "scanColumn board m x y = m"
    by (subst scanColumn_unfold) (simp add: GRID_SIZE_def)
  moreover have "\<not> (\<exists>s. y \<le> s \<and> covV board x s y')"
    using 0(1) by (auto dest!: covV_bound)
  ultimately show ?case by auto
next
  case (Suc n)
  from Suc(2) have n: "n = GRID_SIZE - (y + 1)" by simp
  show ?case
  proof (cases "y < GRID_SIZE - 2")
    case inr: True
    show ?thesis
    proof (cases "tripleV board x y")
      case True
      define M where "M = extendDown board
          (setCell (setCell (setCell m y x True) (y + 1) x True) (y + 2) x True)
          x (gem_type (board ! y ! x)) (y + 3)"
      have wfM: "wf_board M"
        unfolding M_def using Suc.prems(1) by (simp add: wf_extendDown)
      have unf: "scanColumn board m x y = scanColumn board M x (y + 1)"
        using inr True unfolding M_def by (subst scanColumn_unfold) simp
      have IH: "scanColumn board M x (y + 1) ! y' ! x' =
          (M ! y' ! x' \<or> (x' = x \<and> (\<exists>s. y + 1 \<le> s \<and> covV board x s y')))"
        by (rule Suc(1)[OF n wfM Suc.prems(2,3)])
      let ?S = "setCell (setCell (setCell m y x True) (y + 1) x True) (y + 2) x True"
      let ?tail = "y + 3 \<le> y' \<and> (\<forall>j. y + 3 \<le> j \<and> j \<le> y' \<longrightarrow>
          gem_type (board ! j ! x) = gem_type (board ! y ! x))"
      have wfS: "wf_board ?S" using Suc.prems(1) by simp
      have S: "?S ! y' ! x' = (m ! y' ! x' \<or> (x' = x \<and> (y' = y \<or> y' = y + 1 \<or> y' = y + 2)))"
        using Suc.prems by (simp add: nth_setCell_wf) blast
      have "M ! y' ! x' = (?S ! y' ! x' \<or> (x' = x \<and> ?tail))"
        unfolding M_def by (rule nth_extendDown[OF wfS Suc.prems(2,3)])
      also have "\<dots> = (m ! y' ! x' \<or> (x' = x \<and> (y' = y \<or> y' = y + 1 \<or> y' = y + 2 \<or> ?tail)))"
        unfolding S by blast
      also have "(y' = y \<or> y' = y + 1 \<or> y' = y + 2 \<or> ?tail) = covV board x y y'"
        unfolding covV_def covV_start[OF True, of y', symmetric] using inr True by blast
      finally have Mnth: "M ! y' ! x' = (m ! y' ! x' \<or> (x' = x \<and> covV board x y y'))" .
      have ex: "(\<exists>s. y \<le> s \<and> covV board x s y') \<longleftrightarrow> (covV board x y y' \<or> (\<exists>s. y + 1 \<le> s \<and> covV board x s y'))"
      proof
        assume "\<exists>s. y \<le> s \<and> covV board x s y'"
        then obtain s where s: "y \<le> s" "covV board x s y'" by blast
        show "covV board x y y' \<or> (\<exists>s. y + 1 \<le> s \<and> covV board x s y')"
        proof (cases "s = y")
          case True
          with s show ?thesis by simp
        next
          case False
          with s have "y + 1 \<le> s" by simp
          with s show ?thesis by blast
        qed
      next
        assume "covV board x y y' \<or> (\<exists>s. y + 1 \<le> s \<and> covV board x s y')"
        then show "\<exists>s. y \<le> s \<and> covV board x s y'"
        proof
          assume "covV board x y y'"
          then show ?thesis by (intro exI[of _ y]) simp
        next
          assume "\<exists>s. y + 1 \<le> s \<and> covV board x s y'"
          then obtain s where "y + 1 \<le> s" "covV board x s y'" by blast
          then show ?thesis by (intro exI[of _ s]) simp
        qed
      qed
      show ?thesis
        unfolding unf IH Mnth ex by blast
    next
      case False
      have unf: "scanColumn board m x y = scanColumn board m x (y + 1)"
        using inr False by (subst scanColumn_unfold) simp
      have IH: "scanColumn board m x (y + 1) ! y' ! x' =
          (m ! y' ! x' \<or> (x' = x \<and> (\<exists>s. y + 1 \<le> s \<and> covV board x s y')))"
        by (rule Suc(1)[OF n Suc.prems])
      have ex: "(\<exists>s. y \<le> s \<and> covV board x s y') \<longleftrightarrow> (\<exists>s. y + 1 \<le> s \<and> covV board x s y')"
      proof
        assume "\<exists>s. y \<le> s \<and> covV board x s y'"
        then obtain s where s: "y \<le> s" "covV board x s y'" by blast
        with False have "s \<noteq> y" by (auto dest: covV_triple)
        with s have "y + 1 \<le> s" by simp
        with s show "\<exists>s. y + 1 \<le> s \<and> covV board x s y'" by blast
      next
        assume "\<exists>s. y + 1 \<le> s \<and> covV board x s y'"
        then obtain s where "y + 1 \<le> s" "covV board x s y'" by blast
        then show "\<exists>s. y \<le> s \<and> covV board x s y'" by (intro exI[of _ s]) simp
      qed
      show ?thesis unfolding unf IH ex ..
    qed
  next
    case False
    have "scanColumn board m x y = m"
      using False by (subst scanColumn_unfold) simp
    moreover have "\<not> (\<exists>s. y \<le> s \<and> covV board x s y')"
      using False by (auto simp: covV_def)
    ultimately show ?thesis by auto
  qed
qed

lemma wf_scanRows: "wf_board m \<Longrightarrow> wf_board (scanRows board m y)"
proof (induction "GRID_SIZE - y" arbitrary: m y)
  case 0
  then show ?case by (subst scanRows.simps) simp
next
  case (Suc n)
  from Suc(2) have n: "n = GRID_SIZE - (y + 1)" by simp
  show ?case
    using Suc(1)[OF n] Suc(3) by (subst scanRows.simps) (simp add: wf_scanRow)
qed

lemma nth_scanRows:
  "wf_board m \<Longrightarrow> y' < GRID_SIZE \<Longrightarrow> x' < GRID_SIZE \<Longrightarrow>
   scanRows board m y ! y' ! x' = (m ! y' ! x' \<or> (y \<le> y' \<and> (\<exists>s. covH board y' s x')))"
proof (induction "GRID_SIZE - y" arbitrary: m y)
  case 0
  then have "GRID_SIZE \<le> y" by simp
  with 0 have "scanRows board m y = m" "\<not> y \<le> y'"
    by (subst scanRows.simps, simp, simp)
  then show ?case by simp
next
  case (Suc n)
  from Suc(2) have n: "n = GRID_SIZE - (y + 1)" and y: "y < GRID_SIZE" by simp_all
  have unf: "scanRows board m y = scanRows board (scanRow board m y 0) (y + 1)"
    using y by (subst scanRows.simps) simp
  have IH: "scanRows board (scanRow board m y 0) (y + 1) ! y' ! x' =
      (scanRow board m y 0 ! y' ! x' \<or> (y + 1 \<le> y' \<and> (\<exists>s. covH board y' s x')))"
    by (rule Suc(1)[OF n wf_scanRow[OF Suc.prems(1)] Suc.prems(2,3)])
  have row: "scanRow board m y 0 ! y' ! x' = (m ! y' ! x' \<or> (y' = y \<and> (\<exists>s. covH board y s x')))"
    using nth_scanRow[OF Suc.prems, of board y 0] by simp
  have "(y \<le> y') = (y' = y \<or> y + 1 \<le> y')" by arith
  then show ?case unfolding unf IH row by blast
qed

lemma wf_scanColumns: "wf_board m \<Longrightarrow> wf_board (scanColumns board m x)"
proof (induction "GRID_SIZE - x" arbitrary: m x)
  case 0
  then show ?case by (subst scanColumns.simps) simp
next
  case (Suc n)
  from Suc(2) have n: "n = GRID_SIZE - (x + 1)" by simp
  show ?case
    using Suc(1)[OF n] Suc(3) by (subst scanColumns.simps) (simp add: wf_scanColumn)
qed

lemma nth_scanColumns:
  "wf_board m \<Longrightarrow> y' < GRID_SIZE \<Longrightarrow> x' < GRID_SIZE \<Longrightarrow>
   scanColumns board m x ! y' ! x' = (m ! y' ! x' \<or> (x \<le> x' \<and> (\<exists>s. covV board x' s y')))"
proof (induction "GRID_SIZE - x" arbitrary: m x)
  case 0
  then have "GRID_SIZE \<le> x" by simp
  with 0 have "scanColumns board m x = m" "\<not> x \<le> x'"
    by (subst scanColumns.simps, simp, simp)
  then show ?case by simp
next
  case (Suc n)
  from Suc(2) have n: "n = GRID_SIZE - (x + 1)" and x: "x < GRID_SIZE" by simp_all
  have unf: "scanColumns board m x = scanColumns board (scanColumn board m x 0) (x + 1)"
    using x by (subst scanColumns.simps) simp
  have IH: "scanColumns board (scanColumn board m x 0) (x + 1) ! y' ! x' =
      (scanColumn board m x 0 ! y' ! x' \<or> (x + 1 \<le> x' \<and> (\<exists>s. covV board x' s y')))"
    by (rule Suc(1)[OF n wf_scanColumn[OF Suc.prems(1)] Suc.prems(2,3)])
  have col: "scanColumn board m x 0 ! y' ! x' = (m ! y' ! x' \<or> (x' = x \<and> (\<exists>s. covV board x s y')))"
    using nth_scanColumn[OF Suc.prems(1,3,2), of board x 0] by simp
  have "(x \<le> x') = (x' = x \<or> x + 1 \<le> x')" by arith
  then show ?case unfolding unf IH col by blast
qed

lemma wf_replicate: "wf_board (replicate GRID_SIZE (replicate GRID_SIZE v))"
  by (simp add: wf_board_def)

lemma wf_matchedCells: "wf_board (matchedCells board)"
  unfolding matchedCells_def by (intro wf_scanColumns wf_scanRows wf_replicate)

lemma nth_matchedCells:
  "y < GRID_SIZE \<Longrightarrow> x < GRID_SIZE \<Longrightarrow>
   matchedCells board ! y ! x = ((\<exists>s. covH board y s x) \<or> (\<exists>s. covV board x s y))"
  unfolding matchedCells_def
  by (simp add: nth_scanColumns nth_scanRows wf_scanRows wf_replicate)

lemma collectRow_eq:
  "x \<le> GRID_SIZE \<Longrightarrow>
   collectRow board matched y x result =
     result @ map (\<lambda>x. board ! y ! x) (filter (\<lambda>x. matched ! y ! x) [x..<GRID_SIZE])"
proof (induction "GRID_SIZE - x" arbitrary: x result)
  case 0
  then show ?case by (subst collectRow.simps) simp
next
  case (Suc n)
  from Suc(2) have n: "n = GRID_SIZE - Suc x" and x: "x < GRID_SIZE" by simp_all
  have up: "[x..<GRID_SIZE] = x # [Suc x..<GRID_SIZE]"
    using x by (simp add: upt_conv_Cons)
  show ?case
    using x by (subst collectRow.simps) (simp add: Suc(1)[OF n] up)
qed

lemma collectRows_eq:
  "y \<le> GRID_SIZE \<Longrightarrow>
   collectRows board matched y result =
     result @ concat (map (\<lambda>y. map (\<lambda>x. board ! y ! x) (filter (\<lambda>x. matched ! y ! x) [0..<GRID_SIZE]))
                       [y..<GRID_SIZE])"
proof (induction "GRID_SIZE - y" arbitrary: y result)
  case 0
  then show ?case by (subst collectRows.simps) simp
next
  case (Suc n)
  from Suc(2) have n: "n = GRID_SIZE - Suc y" and y: "y < GRID_SIZE" by simp_all
  have up: "[y..<GRID_SIZE] = y # [Suc y..<GRID_SIZE]"
    using y by (simp add: upt_conv_Cons)
  show ?case
    using y by (subst collectRows.simps) (simp add: Suc(1)[OF n] up collectRow_eq)
qed

lemma findMatches_eq:
  "findMatches board =
     concat (map (\<lambda>y. map (\<lambda>x. board ! y ! x)
                         (filter (\<lambda>x. (\<exists>s. covH board y s x) \<or> (\<exists>s. covV board x s y)) [0..<GRID_SIZE]))
                 [0..<GRID_SIZE])"
proof -
  have f: "filter (\<lambda>x. matchedCells board ! y ! x) [0..<GRID_SIZE] =
           filter (\<lambda>x. (\<exists>s. covH board y s x) \<or> (\<exists>s. covV board x s y)) [0..<GRID_SIZE]"
    if "y < GRID_SIZE" for y
    by (rule filter_cong[OF refl]) (simp add: nth_matchedCells that)
  have eq: "map (\<lambda>y. map (\<lambda>x. board ! y ! x) (filter (\<lambda>x. matchedCells board ! y ! x) [0..<GRID_SIZE])) [0..<GRID_SIZE]
      = map (\<lambda>y. map (\<lambda>x. board ! y ! x)
                         (filter (\<lambda>x. (\<exists>s. covH board y s x) \<or> (\<exists>s. covV board x s y)) [0..<GRID_SIZE]))
                 [0..<GRID_SIZE]"
    by (rule map_cong[OF refl]) (simp add: f)
  have "findMatches board =
      concat (map (\<lambda>y. map (\<lambda>x. board ! y ! x) (filter (\<lambda>x. matchedCells board ! y ! x) [0..<GRID_SIZE])) [0..<GRID_SIZE])"
    unfolding findMatches_def by (simp add: collectRows_eq)
  also have "\<dots> = concat (map (\<lambda>y. map (\<lambda>x. board ! y ! x)
                         (filter (\<lambda>x. (\<exists>s. covH board y s x) \<or> (\<exists>s. covV board x s y)) [0..<GRID_SIZE]))
                 [0..<GRID_SIZE])"
    using eq by (rule arg_cong)
  finally show ?thesis .
qed

lemma covH_inRunH:
  assumes "x < GRID_SIZE"
  shows "(\<exists>s. covH board y s x) \<longleftrightarrow> inRunH board y x"
proof
  assume "\<exists>s. covH board y s x"
  then obtain s where s: "s < GRID_SIZE - 2" "tripleH board y s" "s \<le> x"
    and all: "\<And>j. s \<le> j \<Longrightarrow> j \<le> x \<Longrightarrow> gem_type (board ! y ! j) = gem_type (board ! y ! s)"
    unfolding covH_def by blast
  have t: "gem_type (board ! y ! s) \<noteq> None"
          "gem_type (board ! y ! (s + 1)) = gem_type (board ! y ! s)"
          "gem_type (board ! y ! (s + 2)) = gem_type (board ! y ! s)"
    using s(2) unfolding tripleH_def by metis+
  define hi where "hi = max x (s + 2)"
  have "gem_type (board ! y ! k) = gem_type (board ! y ! s)" if "k \<in> {s..hi}" for k
  proof (cases "k \<le> x")
    case True
    with that show ?thesis by (intro all) simp_all
  next
    case False
    with that s(3) have "k = s \<or> k = s + 1 \<or> k = s + 2"
      unfolding hi_def by (simp add: max_def split: if_splits) arith
    with t show ?thesis by blast
  qed
  then have "\<forall>k \<in> {s..hi}. gem_type (board ! y ! k) = gem_type (board ! y ! s)" ..
  moreover have "s + 2 \<le> hi" "hi < GRID_SIZE"
    unfolding hi_def using s(1) assms by (simp_all add: GRID_SIZE_def)
  ultimately have "hrun board y s hi"
    unfolding hrun_def using t(1) by blast
  moreover have "s \<in> {0..x}" "hi \<in> {x..<GRID_SIZE}"
    using s(1,3) assms unfolding hi_def by (simp_all add: GRID_SIZE_def)
  ultimately show "inRunH board y x"
    unfolding inRunH_def by blast
next
  assume "inRunH board y x"
  then obtain lo hi where lh: "lo \<le> x" "x \<le> hi" "hrun board y lo hi"
    unfolding inRunH_def by auto
  then have b: "lo + 2 \<le> hi" "hi < GRID_SIZE" "gem_type (board ! y ! lo) \<noteq> None"
    and allk: "\<And>k. k \<in> {lo..hi} \<Longrightarrow> gem_type (board ! y ! k) = gem_type (board ! y ! lo)"
    unfolding hrun_def by blast+
  have all: "gem_type (board ! y ! k) = gem_type (board ! y ! lo)" if "lo \<le> k" "k \<le> hi" for k
    by (rule allk) (simp add: that)
  have "gem_type (board ! y ! (lo + 1)) = gem_type (board ! y ! lo)"
       "gem_type (board ! y ! (lo + 2)) = gem_type (board ! y ! lo)"
    using b(1) by (intro all; simp)+
  then have "tripleH board y lo"
    unfolding tripleH_def using b(3) by simp
  moreover have "lo < GRID_SIZE - 2" using b(1,2) by simp
  moreover have "\<forall>j. lo \<le> j \<and> j \<le> x \<longrightarrow> gem_type (board ! y ! j) = gem_type (board ! y ! lo)"
  proof (intro allI impI)
    fix j assume "lo \<le> j \<and> j \<le> x"
    with lh(2) have "lo \<le> j" "j \<le> hi" by simp_all
    then show "gem_type (board ! y ! j) = gem_type (board ! y ! lo)" by (rule all)
  qed
  ultimately have "covH board y lo x"
    unfolding covH_def using lh(1) by blast
  then show "\<exists>s. covH board y s x" ..
qed

lemma covV_inRunV:
  assumes "y < GRID_SIZE"
  shows "(\<exists>s. covV board x s y) \<longleftrightarrow> inRunV board y x"
proof
  assume "\<exists>s. covV board x s y"
  then obtain s where s: "s < GRID_SIZE - 2" "tripleV board x s" "s \<le> y"
    and all: "\<And>j. s \<le> j \<Longrightarrow> j \<le> y \<Longrightarrow> gem_type (board ! j ! x) = gem_type (board ! s ! x)"
    unfolding covV_def by blast
  have t: "gem_type (board ! s ! x) \<noteq> None"
          "gem_type (board ! (s + 1) ! x) = gem_type (board ! s ! x)"
          "gem_type (board ! (s + 2) ! x) = gem_type (board ! s ! x)"
    using s(2) unfolding tripleV_def by metis+
  define hi where "hi = max y (s + 2)"
  have "gem_type (board ! k ! x) = gem_type (board ! s ! x)" if "k \<in> {s..hi}" for k
  proof (cases "k \<le> y")
    case True
    with that show ?thesis by (intro all) simp_all
  next
    case False
    with that s(3) have "k = s \<or> k = s + 1 \<or> k = s + 2"
      unfolding hi_def by (simp add: max_def split: if_splits) arith
    with t show ?thesis by blast
  qed
  then have "\<forall>k \<in> {s..hi}. gem_type (board ! k ! x) = gem_type (board ! s ! x)" ..
  moreover have "s + 2 \<le> hi" "hi < GRID_SIZE"
    unfolding hi_def using s(1) assms by (simp_all add: GRID_SIZE_def)
  ultimately have "vrun board x s hi"
    unfolding vrun_def using t(1) by blast
  moreover have "s \<in> {0..y}" "hi \<in> {y..<GRID_SIZE}"
    using s(1,3) assms unfolding hi_def by (simp_all add: GRID_SIZE_def)
  ultimately show "inRunV board y x"
    unfolding inRunV_def by blast
next
  assume "inRunV board y x"
  then obtain lo hi where lh: "lo \<le> y" "y \<le> hi" "vrun board x lo hi"
    unfolding inRunV_def by auto
  then have b: "lo + 2 \<le> hi" "hi < GRID_SIZE" "gem_type (board ! lo ! x) \<noteq> None"
    and allk: "\<And>k. k \<in> {lo..hi} \<Longrightarrow> gem_type (board ! k ! x) = gem_type (board ! lo ! x)"
    unfolding vrun_def by blast+
  have all: "gem_type (board ! k ! x) = gem_type (board ! lo ! x)" if "lo \<le> k" "k \<le> hi" for k
    by (rule allk) (simp add: that)
  have "gem_type (board ! (lo + 1) ! x) = gem_type (board ! lo ! x)"
       "gem_type (board ! (lo + 2) ! x) = gem_type (board ! lo ! x)"
    using b(1) by (intro all; simp)+
  then have "tripleV board x lo"
    unfolding tripleV_def using b(3) by simp
  moreover have "lo < GRID_SIZE - 2" using b(1,2) by simp
  moreover have "\<forall>j. lo \<le> j \<and> j \<le> y \<longrightarrow> gem_type (board ! j ! x) = gem_type (board ! lo ! x)"
  proof (intro allI impI)
    fix j assume "lo \<le> j \<and> j \<le> y"
    with lh(2) have "lo \<le> j" "j \<le> hi" by simp_all
    then show "gem_type (board ! j ! x) = gem_type (board ! lo ! x)" by (rule all)
  qed
  ultimately have "covV board x lo y"
    unfolding covV_def using lh(1) by blast
  then show "\<exists>s. covV board x s y" ..
qed

lemma nth_matchedCells_inRun:
  "y < GRID_SIZE \<Longrightarrow> x < GRID_SIZE \<Longrightarrow> matchedCells board ! y ! x = inRun board y x"
  by (simp add: nth_matchedCells covH_inRunH covV_inRunV inRun_def)

lemma findMatches_inRun:
  "findMatches board =
     concat (map (\<lambda>y. map (\<lambda>x. board ! y ! x) (filter (\<lambda>x. inRun board y x) [0..<GRID_SIZE]))
                 [0..<GRID_SIZE])"
proof -
  have f: "filter (\<lambda>x. (\<exists>s. covH board y s x) \<or> (\<exists>s. covV board x s y)) [0..<GRID_SIZE] =
           filter (\<lambda>x. inRun board y x) [0..<GRID_SIZE]"
    if "y < GRID_SIZE" for y
    by (rule filter_cong[OF refl]) (simp add: covH_inRunH covV_inRunV inRun_def that)
  have eq: "map (\<lambda>y. map (\<lambda>x. board ! y ! x)
                (filter (\<lambda>x. (\<exists>s. covH board y s x) \<or> (\<exists>s. covV board x s y)) [0..<GRID_SIZE])) [0..<GRID_SIZE]
      = map (\<lambda>y. map (\<lambda>x. board ! y ! x) (filter (\<lambda>x. inRun board y x) [0..<GRID_SIZE])) [0..<GRID_SIZE]"
    by (rule map_cong[OF refl]) (simp add: f)
  show ?thesis
    unfolding findMatches_eq using eq by (rule arg_cong)
qed

lemma inRun_type: "inRun board y x \<Longrightarrow> gem_type (board ! y ! x) \<noteq> None"
proof -
  assume "inRun board y x"
  then consider "inRunH board y x" | "inRunV board y x"
    unfolding inRun_def by blast
  then show ?thesis
  proof cases
    case 1
    then obtain lo hi where "x \<in> {lo..hi}" "hrun board y lo hi"
      unfolding inRunH_def by auto
    then show ?thesis unfolding hrun_def by metis
  next
    case 2
    then obtain lo hi where "y \<in> {lo..hi}" "vrun board x lo hi"
      unfolding inRunV_def by auto
    then show ?thesis unfolding vrun_def by metis
  qed
qed

lemma getSafe_unfold:
  "getSafeRandomGem rng board x y row =
     (if rejected board x y row (shd rng) then getSafeRandomGem (stl rng) board x y row
      else Some (shd rng, stl rng))"
  by (subst getSafeRandomGem.simps) (auto simp: rejected_def getRandomGemType_def Let_def)

lemma getSafe_returns:
  "\<not> rejected board x y row (rng !! n) \<Longrightarrow> \<forall>i<n. rejected board x y row (rng !! i) \<Longrightarrow>
   getSafeRandomGem rng board x y row = Some (rng !! n, sdrop (Suc n) rng)"
proof (induction n arbitrary: rng)
  case 0
  then show ?case by (subst getSafe_unfold) simp
next
  case (Suc n)
  have "rejected board x y row (shd rng)" using Suc.prems(2)[rule_format, of 0] by simp
  moreover have "getSafeRandomGem (stl rng) board x y row = Some (stl rng !! n, sdrop (Suc n) (stl rng))"
    using Suc.prems by (intro Suc.IH) auto
  ultimately show ?case by (subst getSafe_unfold) simp
qed

lemma getSafe_Some_aux:
  "getSafeRandomGem rng board x y row = Some r \<Longrightarrow>
   \<exists>n. \<not> rejected board x y row (rng !! n) \<and> (\<forall>i<n. rejected board x y row (rng !! i)) \<and>
       r = (rng !! n, sdrop (Suc n) rng)"
proof -
  let ?P = "\<lambda>rng board x y row r. \<exists>n. \<not> rejected board x y row (rng !! n) \<and>
       (\<forall>i<n. rejected board x y row (rng !! i)) \<and> r = (rng !! n, sdrop (Suc n) rng)"
  assume a: "getSafeRandomGem rng board x y row = Some r"
  have "(case ((((rng, board), x), y), row) of
          (x, xa) \<Rightarrow> (case x of (x, xa) \<Rightarrow> (case x of (x, xa) \<Rightarrow> (case x of (x, xa) \<Rightarrow> ?P x xa) xa) xa) xa) r"
  proof (rule getSafeRandomGem.raw_induct[where P = ?P])
    show "(case ((((rng, board), x), y), row) of
            (x, xa) \<Rightarrow> (case x of (x, xa) \<Rightarrow> (case x of (x, xa) \<Rightarrow>
               (case x of (x, xa) \<Rightarrow> getSafeRandomGem x xa) xa) xa) xa) = Some r"
      using a by simp
  next
    fix f rng board x y row r
    assume IH: "\<And>rng board x y row r. f rng board x y row = Some r \<Longrightarrow> ?P rng board x y row r"
      and step: "(case getRandomGemType rng of
      (gemType, rng') \<Rightarrow>
        let isMatchLeft = 2 \<le> x \<and> typeAt row (x - 1) = Some gemType \<and> typeAt row (x - 2) = Some gemType;
            isMatchUp = 2 \<le> y \<and> typeAt (board ! (y - 1)) x = Some gemType \<and>
              typeAt (board ! (y - 2)) x = Some gemType
        in if \<not> isMatchLeft \<and> \<not> isMatchUp then Some (gemType, rng')
           else f rng' board x y row) = Some r"
    show "?P rng board x y row r"
    proof (cases "rejected board x y row (shd rng)")
      case True
      then have "f (stl rng) board x y row = Some r"
        using step by (auto simp: rejected_def getRandomGemType_def Let_def split: if_splits)
      from IH[OF this] obtain n where n: "\<not> rejected board x y row (stl rng !! n)"
        "\<forall>i<n. rejected board x y row (stl rng !! i)" "r = (stl rng !! n, sdrop (Suc n) (stl rng))"
        by blast
      have "\<forall>i<Suc n. rejected board x y row (rng !! i)"
        using True n(2) by (auto simp: less_Suc_eq_0_disj)
      with n show ?thesis by (intro exI[of _ "Suc n"]) auto
    next
      case False
      then have "r = (shd rng, stl rng)"
        using step by (auto simp: rejected_def getRandomGemType_def Let_def split: if_splits)
      with False show ?thesis by (intro exI[of _ 0]) auto
    qed
  qed
  then show ?thesis by simp
qed

lemma getSafe_None_const:
  "rejected board x y row t \<Longrightarrow> getSafeRandomGem (sconst t) board x y row = None"
  using getSafe_Some_aux[of "sconst t" board x y row] 
  by (cases "getSafeRandomGem (sconst t) board x y row") auto

lemma rejected_two:
  "rejected board x y row t \<Longrightarrow> rejected board x y row u \<Longrightarrow> rejected board x y row v \<Longrightarrow>
   t = u \<or> t = v \<or> u = v"
  by (auto simp: rejected_def)

lemma UNIV_GemType: "UNIV = {G0, G1, G2, G3, G4}"
  by (auto intro: GemType.exhaust)

lemma three_ok: "card {t. \<not> rejected board x y row t} \<ge> 3"
proof -
  have fin: "finite {t. rejected board x y row t}"
    by (rule finite_subset[OF subset_UNIV]) (simp add: UNIV_GemType)
  have "card {t. rejected board x y row t} \<le> 2"
  proof (rule ccontr)
    assume "\<not> ?thesis"
    then have "card {t. rejected board x y row t} \<ge> 3" by simp
    then obtain A where A: "A \<subseteq> {t. rejected board x y row t}" "card A = 3"
      by (meson obtain_subset_with_card_n)
    then obtain a b c where "A = {a, b, c}" "a \<noteq> b" "a \<noteq> c" "b \<noteq> c"
      by (auto simp: card_3_iff)
    with A show False using rejected_two[of board x y row a b c] by simp
  qed
  moreover have "{t. \<not> rejected board x y row t} = UNIV - {t. rejected board x y row t}"
    by blast
  moreover have "card (UNIV - {t. rejected board x y row t}) = card (UNIV :: GemType set) - card {t. rejected board x y row t}"
    by (rule card_Diff_subset[OF fin]) simp
  moreover have "card (UNIV :: GemType set) = 5" by (simp add: UNIV_GemType)
  ultimately show ?thesis by simp
qed

lemma rowInv_Nil: "rowInv board y []"
  by (simp add: rowInv_def)

lemma rowInv_snoc:
  assumes inv: "rowInv board y row" and nr: "\<not> rejected board (length row) y row t"
  shows "rowInv board y (row @ [\<lparr>gem_x = length row, gem_y = y, gem_type = Some t,
                                  selected = Some False, renderY = None\<rparr>])"
    (is "rowInv board y (row @ [?g])")
proof -
  let ?n = "length row"
  have old: "(row @ [?g]) ! i = row ! i" if "i < ?n" for i
    using that by (simp add: nth_append)
  have new: "(row @ [?g]) ! ?n = ?g" by simp
  have c1: "gem_x ((row @ [?g]) ! i) = i \<and> gem_y ((row @ [?g]) ! i) = y \<and> gem_type ((row @ [?g]) ! i) \<noteq> None"
    if "i < length (row @ [?g])" for i
  proof (cases "i < ?n")
    case True
    then show ?thesis using inv by (simp add: old rowInv_def)
  next
    case False
    with that have "i = ?n" by simp
    then show ?thesis by simp
  qed
  have c2: "\<not> (gem_type ((row @ [?g]) ! i) = gem_type ((row @ [?g]) ! (i + 1)) \<and>
               gem_type ((row @ [?g]) ! i) = gem_type ((row @ [?g]) ! (i + 2)))"
    if "i + 2 < length (row @ [?g])" for i
  proof (cases "i + 2 < ?n")
    case True
    then have "i < ?n" "i + 1 < ?n" by simp_all
    with True show ?thesis using inv by (simp add: old rowInv_def)
  next
    case False
    with that have i: "?n = i + 2" by simp
    then have "2 \<le> ?n" "?n - 1 = i + 1" "?n - 2 = i" "i < ?n" "i + 1 < ?n" by simp_all
    with nr have "\<not> (gem_type (row ! (i + 1)) = Some t \<and> gem_type (row ! i) = Some t)"
      by (simp add: rejected_def typeAt_def)
    moreover have "(row @ [?g]) ! (i + 2) = ?g" using i new by simp
    moreover have "(row @ [?g]) ! i = row ! i" "(row @ [?g]) ! (i + 1) = row ! (i + 1)"
      using i by (simp_all add: nth_append)
    ultimately show ?thesis by auto
  qed
  have c3: "\<not> (typeAt (board ! (y - 1)) i = gem_type ((row @ [?g]) ! i) \<and>
               typeAt (board ! (y - 2)) i = gem_type ((row @ [?g]) ! i))"
    if "2 \<le> y" "i < length (row @ [?g])" for i
  proof (cases "i < ?n")
    case True
    then show ?thesis using inv that(1) by (simp add: old rowInv_def)
  next
    case False
    with that have i: "i = ?n" by simp
    from nr that(1) have "\<not> (typeAt (board ! (y - 1)) ?n = Some t \<and> typeAt (board ! (y - 2)) ?n = Some t)"
      by (simp add: rejected_def)
    then show ?thesis unfolding i new by simp
  qed
  show ?thesis
    unfolding rowInv_def using c1 c2 c3 by blast
qed

lemma getSafe_not_rejected:
  "getSafeRandomGem rng board x y row = Some (t, rng') \<Longrightarrow> \<not> rejected board x y row t"
  by (drule getSafe_Some_aux) auto

lemma initRow_inv:
  "initRow rng board y x row = Some (row', rng') \<Longrightarrow> length row = x \<Longrightarrow> x \<le> GRID_SIZE \<Longrightarrow>
   rowInv board y row \<Longrightarrow> length row' = GRID_SIZE \<and> rowInv board y row'"
proof (induction "GRID_SIZE - x" arbitrary: rng x row)
  case 0
  then have "x = GRID_SIZE" by simp
  with 0(2) have "row' = row"
    by (subst (asm) initRow.simps) simp
  with 0 \<open>x = GRID_SIZE\<close> show ?case by simp
next
  case (Suc n)
  from Suc(2) have n: "n = GRID_SIZE - Suc x" and x: "x < GRID_SIZE" by simp_all
  from Suc.prems(1) x obtain t rng1 where
    g: "getSafeRandomGem rng board x y row = Some (t, rng1)" and
    r: "initRow rng1 board y (Suc x)
          (row @ [\<lparr>gem_x = x, gem_y = y, gem_type = Some t, selected = Some False, renderY = None\<rparr>])
        = Some (row', rng')"
    by (subst (asm) initRow.simps) (auto split: option.splits)
  have nr: "\<not> rejected board (length row) y row t"
    using getSafe_not_rejected[OF g] Suc.prems(2) by simp
  have inv: "rowInv board y (row @ [\<lparr>gem_x = x, gem_y = y, gem_type = Some t, selected = Some False, renderY = None\<rparr>])"
    using rowInv_snoc[OF Suc.prems(4) nr] Suc.prems(2) by simp
  show ?case
    by (rule Suc(1)[OF n r _ _ inv]) (use Suc.prems(2) x in simp_all)
qed

lemma rowInv_append:
  "y \<le> length board \<Longrightarrow> rowInv (board @ rows) y row = rowInv board y row"
proof (cases "2 \<le> y")
  case True
  moreover assume "y \<le> length board"
  ultimately have "y - 1 < length board" "y - 2 < length board"
    by arith+
  then have "(board @ rows) ! (y - 1) = board ! (y - 1)" "(board @ rows) ! (y - 2) = board ! (y - 2)"
    by (simp_all add: nth_append)
  then show ?thesis unfolding rowInv_def by simp
next
  case False
  then show ?thesis unfolding rowInv_def by simp
qed

lemma boardInv_snoc:
  assumes "boardInv board" "length row = GRID_SIZE" "rowInv board (length board) row"
  shows "boardInv (board @ [row])"
  unfolding boardInv_def
proof (intro allI impI)
  fix y assume "y < length (board @ [row])"
  then consider "y < length board" | "y = length board" by fastforce
  then show "length ((board @ [row]) ! y) = GRID_SIZE \<and> rowInv (board @ [row]) y ((board @ [row]) ! y)"
  proof cases
    case 1
    then show ?thesis using assms(1) by (simp add: nth_append rowInv_append boardInv_def)
  next
    case 2
    then show ?thesis using assms(2,3) by (simp add: rowInv_append)
  qed
qed

lemma initRows_inv:
  "initRows rng board y = Some (board', rng') \<Longrightarrow> length board = y \<Longrightarrow> y \<le> GRID_SIZE \<Longrightarrow>
   boardInv board \<Longrightarrow> length board' = GRID_SIZE \<and> boardInv board'"
proof (induction "GRID_SIZE - y" arbitrary: rng y board)
  case 0
  then have "y = GRID_SIZE" by simp
  with 0(2) have "board' = board"
    by (subst (asm) initRows.simps) simp
  with 0 \<open>y = GRID_SIZE\<close> show ?case by simp
next
  case (Suc n)
  from Suc(2) have n: "n = GRID_SIZE - Suc y" and y: "y < GRID_SIZE" by simp_all
  from Suc.prems(1) y obtain row rng1 where
    g: "initRow rng board y 0 [] = Some (row, rng1)" and
    r: "initRows rng1 (board @ [row]) (Suc y) = Some (board', rng')"
    by (subst (asm) initRows.simps) (auto split: option.splits)
  have row: "length row = GRID_SIZE" "rowInv board y row"
    using initRow_inv[OF g _ _ rowInv_Nil] by simp_all
  have inv: "boardInv (board @ [row])"
    using boardInv_snoc[OF Suc.prems(4) row(1)] row(2) Suc.prems(2) by simp
  show ?case
    by (rule Suc(1)[OF n r _ _ inv]) (use Suc.prems(2) y in simp_all)
qed

lemma initBoard_inv:
  "initBoard rng = Some (board, rng') \<Longrightarrow> length board = GRID_SIZE \<and> boardInv board"
  unfolding initBoard_def
  by (erule initRows_inv) (simp_all add: boardInv_def)

lemma colTypes_Suc: "colTypes board x (Suc n) = colTypes board x n @ [gem_type (board ! n ! x)]"
  by (simp add: colTypes_def)

lemma colTypes_cong:
  "(\<And>y. y < n \<Longrightarrow> gem_type (b ! y ! x) = gem_type (b' ! y ! x)) \<Longrightarrow> colTypes b x n = colTypes b' x n"
  by (simp add: colTypes_def)

lemma length_colTypes [simp]: "length (colTypes board x n) = n"
  by (simp add: colTypes_def)

lemma nth_colTypes: "y < n \<Longrightarrow> colTypes board x n ! y = gem_type (board ! y ! x)"
  by (simp add: colTypes_def)

lemma compactColumn_None:
  "gem_type (board ! y ! x) = None \<Longrightarrow>
   compactColumn board x (Suc y) e fs = compactColumn board x y (e + 1) fs"
  by (simp add: compactColumn.simps(2))

lemma compactColumn_stay:
  "gem_type (board ! y ! x) \<noteq> None \<Longrightarrow>
   compactColumn board x (Suc y) 0 fs = compactColumn board x y 0 fs"
  by (simp add: compactColumn.simps(2) del: not_None_eq)

lemma compactColumn_fall:
  "gem_type (board ! y ! x) \<noteq> None \<Longrightarrow> 0 < e \<Longrightarrow>
   compactColumn board x (Suc y) e fs =
     compactColumn (fallStep board x y e) x y e (fs @ [fallenGem board x y e])"
  by (simp add: compactColumn.simps(2) Let_def fallStep_def fallenGem_def del: not_None_eq)

lemma wf_fallStep: "wf_board board \<Longrightarrow> wf_board (fallStep board x y e)"
  by (simp add: fallStep_def)

lemma nth_fallStep:
  assumes "wf_board board" "y' < GRID_SIZE" "x' < GRID_SIZE" "0 < e"
  shows "fallStep board x y e ! y' ! x' =
     (if x' = x \<and> y' = y then (board ! y ! x)\<lparr>gem_type := None\<rparr>
      else if x' = x \<and> y' = y + e then fallenGem board x y e
      else board ! y' ! x')"
proof -
  let ?b1 = "setCell board (y + e) x (fallenGem board x y e)"
  have wf1: "wf_board ?b1" using assms(1) by simp
  have b1: "?b1 ! y'' ! x'' = (if y'' = y + e \<and> x'' = x then fallenGem board x y e else board ! y'' ! x'')"
    if "y'' < GRID_SIZE" "x'' < GRID_SIZE" for y'' x''
    using nth_setCell_wf[OF assms(1) that] by simp
  show ?thesis
  proof (cases "x' = x \<and> y' = y")
    case True
    then have "?b1 ! y ! x = board ! y ! x"
      using b1[of y x] assms by simp
    then show ?thesis
      unfolding fallStep_def using True nth_setCell_wf[OF wf1 assms(2,3)] by simp
  next
    case False
    then have "fallStep board x y e ! y' ! x' = ?b1 ! y' ! x'"
      unfolding fallStep_def using nth_setCell_wf[OF wf1 assms(2,3)] by auto
    then show ?thesis using False b1[OF assms(2,3)] by auto
  qed
qed

lemma compactColumn_post:
  assumes "compactColumn board x n e fs = (b', e', fs')"
    and "wf_board board" "x < GRID_SIZE" "n + e \<le> GRID_SIZE"
    and "\<forall>y. n \<le> y \<and> y < n + e \<longrightarrow> gem_type (board ! y ! x) = None"
  shows "wf_board b' \<and>
     (\<forall>y'<GRID_SIZE. \<forall>x'<GRID_SIZE. x' \<noteq> x \<longrightarrow> b' ! y' ! x' = board ! y' ! x') \<and>
     (\<forall>y'. n + e \<le> y' \<and> y' < GRID_SIZE \<longrightarrow> b' ! y' ! x = board ! y' ! x) \<and>
     e' = e + length (filter (\<lambda>t. t = None) (colTypes board x n)) \<and>
     colTypes b' x (n + e) = replicate e' None @ filter (\<lambda>t. t \<noteq> None) (colTypes board x n) \<and>
     ((\<forall>y<n. gem_x (board ! y ! x) = x \<and> gem_y (board ! y ! x) = y) \<longrightarrow>
        (\<forall>y. e' \<le> y \<and> y < n + e \<longrightarrow> gem_x (b' ! y ! x) = x \<and> gem_y (b' ! y ! x) = y)) \<and>
     (e' = 0 \<longrightarrow> b' = board)"
  using assms
proof (induction n arbitrary: board e fs)
  case 0
  from 0(1) have eq: "b' = board" "e' = e" by simp_all
  have none: "gem_type (board ! y ! x) = None" if "y < e" for y
    using 0(5) that by simp
  have "colTypes board x e = replicate e None"
    by (rule nth_equalityI) (simp_all add: nth_colTypes none)
  then show ?case
    unfolding eq using 0(2) by (simp add: colTypes_def)
next
  case (Suc y)
  note wf = Suc.prems(2) and x = Suc.prems(3) and bound = Suc.prems(4)
  have empties: "gem_type (board ! y' ! x) = None" if "Suc y \<le> y'" "y' < Suc y + e" for y'
    using Suc.prems(5) that by blast
  have y8: "y < GRID_SIZE" using bound by simp
  show ?case
  proof (cases "gem_type (board ! y ! x) = None")
    case True
    have rec: "compactColumn board x y (e + 1) fs = (b', e', fs')"
      using Suc.prems(1) True by (simp add: compactColumn_None)
    have pre: "\<forall>y'. y \<le> y' \<and> y' < y + (e + 1) \<longrightarrow> gem_type (board ! y' ! x) = None"
    proof (intro allI impI)
      fix y' assume a: "y \<le> y' \<and> y' < y + (e + 1)"
      show "gem_type (board ! y' ! x) = None"
      proof (cases "y' = y")
        case True
        with \<open>gem_type (board ! y ! x) = None\<close> show ?thesis by simp
      next
        case False
        with a show ?thesis by (intro empties) simp_all
      qed
    qed
    have IH: "wf_board b' \<and>
     (\<forall>y'<GRID_SIZE. \<forall>x'<GRID_SIZE. x' \<noteq> x \<longrightarrow> b' ! y' ! x' = board ! y' ! x') \<and>
     (\<forall>y'. y + (e + 1) \<le> y' \<and> y' < GRID_SIZE \<longrightarrow> b' ! y' ! x = board ! y' ! x) \<and>
     e' = (e + 1) + length (filter (\<lambda>t. t = None) (colTypes board x y)) \<and>
     colTypes b' x (y + (e + 1)) = replicate e' None @ filter (\<lambda>t. t \<noteq> None) (colTypes board x y) \<and>
     ((\<forall>y'<y. gem_x (board ! y' ! x) = x \<and> gem_y (board ! y' ! x) = y') \<longrightarrow>
        (\<forall>y'. e' \<le> y' \<and> y' < y + (e + 1) \<longrightarrow> gem_x (b' ! y' ! x) = x \<and> gem_y (b' ! y' ! x) = y')) \<and>
     (e' = 0 \<longrightarrow> b' = board)"
      by (rule Suc.IH[OF rec wf x _ pre]) (use bound in simp)
    show ?thesis
      using IH True by (simp add: colTypes_Suc)
  next
    case nonNull: False
    show ?thesis
    proof (cases "0 < e")
      case True
      let ?b2 = "fallStep board x y e"
      let ?fg = "fallenGem board x y e"
      have ye: "y + e < GRID_SIZE" using bound by simp
      have rec: "compactColumn ?b2 x y e (fs @ [?fg]) = (b', e', fs')"
        using Suc.prems(1) nonNull True by (simp add: compactColumn_fall)
      have wf2: "wf_board ?b2" using wf by (rule wf_fallStep)
      have b2: "?b2 ! y' ! x' =
         (if x' = x \<and> y' = y then (board ! y ! x)\<lparr>gem_type := None\<rparr>
          else if x' = x \<and> y' = y + e then ?fg else board ! y' ! x')"
        if "y' < GRID_SIZE" "x' < GRID_SIZE" for y' x'
        by (rule nth_fallStep[OF wf that True])
      have pre: "\<forall>y'. y \<le> y' \<and> y' < y + e \<longrightarrow> gem_type (?b2 ! y' ! x) = None"
      proof (intro allI impI)
        fix y' assume a: "y \<le> y' \<and> y' < y + e"
        then have y'8: "y' < GRID_SIZE" using ye by simp
        show "gem_type (?b2 ! y' ! x) = None"
        proof (cases "y' = y")
          case True
          then show ?thesis using b2[OF y'8 x] by simp
        next
          case False
          with a have "gem_type (board ! y' ! x) = None" by (intro empties) simp_all
          with False a show ?thesis using b2[OF y'8 x] by simp
        qed
      qed
      have IH: "wf_board b' \<and>
       (\<forall>y'<GRID_SIZE. \<forall>x'<GRID_SIZE. x' \<noteq> x \<longrightarrow> b' ! y' ! x' = ?b2 ! y' ! x') \<and>
       (\<forall>y'. y + e \<le> y' \<and> y' < GRID_SIZE \<longrightarrow> b' ! y' ! x = ?b2 ! y' ! x) \<and>
       e' = e + length (filter (\<lambda>t. t = None) (colTypes ?b2 x y)) \<and>
       colTypes b' x (y + e) = replicate e' None @ filter (\<lambda>t. t \<noteq> None) (colTypes ?b2 x y) \<and>
       ((\<forall>y'<y. gem_x (?b2 ! y' ! x) = x \<and> gem_y (?b2 ! y' ! x) = y') \<longrightarrow>
          (\<forall>y'. e' \<le> y' \<and> y' < y + e \<longrightarrow> gem_x (b' ! y' ! x) = x \<and> gem_y (b' ! y' ! x) = y')) \<and>
       (e' = 0 \<longrightarrow> b' = ?b2)"
        by (rule Suc.IH[OF rec wf2 x _ pre]) (use bound in simp)
      have below: "?b2 ! y' ! x = board ! y' ! x" if "y' < y" for y'
        using b2[of y' x] that y8 x by simp
      have ct: "colTypes ?b2 x y = colTypes board x y"
        by (rule colTypes_cong) (simp add: below)
      have top: "b' ! (y + e) ! x = ?fg"
        using IH b2[OF ye x] ye True by simp
      have c1: "wf_board b'" using IH by blast
      have c2: "\<forall>y'<GRID_SIZE. \<forall>x'<GRID_SIZE. x' \<noteq> x \<longrightarrow> b' ! y' ! x' = board ! y' ! x'"
        using IH b2 by simp
      have c3: "\<forall>y'. Suc y + e \<le> y' \<and> y' < GRID_SIZE \<longrightarrow> b' ! y' ! x = board ! y' ! x"
        using IH b2 x by simp
      have c4: "e' = e + length (filter (\<lambda>t. t = None) (colTypes board x (Suc y)))"
        using IH nonNull unfolding ct by (simp add: colTypes_Suc)
      have "colTypes b' x (Suc y + e) = colTypes b' x (y + e) @ [gem_type ?fg]"
        using top by (simp add: colTypes_Suc)
      also have "\<dots> = replicate e' None @ filter (\<lambda>t. t \<noteq> None) (colTypes board x (Suc y))"
        using IH nonNull unfolding ct by (simp add: colTypes_Suc fallenGem_def)
      finally have c5: "colTypes b' x (Suc y + e) =
          replicate e' None @ filter (\<lambda>t. t \<noteq> None) (colTypes board x (Suc y))" .
      have c6: "gem_x (b' ! y' ! x) = x \<and> gem_y (b' ! y' ! x) = y'"
        if coh: "\<forall>y'<Suc y. gem_x (board ! y' ! x) = x \<and> gem_y (board ! y' ! x) = y'"
          and r: "e' \<le> y'" "y' < Suc y + e" for y'
      proof (cases "y' = y + e")
        case True
        then show ?thesis using top by (simp add: fallenGem_def)
      next
        case False
        have "\<forall>y'<y. gem_x (?b2 ! y' ! x) = x \<and> gem_y (?b2 ! y' ! x) = y'"
          using coh by (simp add: below)
        with IH have "\<forall>y'. e' \<le> y' \<and> y' < y + e \<longrightarrow> gem_x (b' ! y' ! x) = x \<and> gem_y (b' ! y' ! x) = y'"
          by blast
        moreover have "y' < y + e" using r False by simp
        ultimately show ?thesis using r(1) by blast
      qed
      have c7: "e' \<noteq> 0" using c4 True by simp
      show ?thesis
        using c1 c2 c3 c4 c5 c6 c7 by blast
    next
      case False
      then have e0: "e = 0" by simp
      have rec: "compactColumn board x y 0 fs = (b', e', fs')"
        using Suc.prems(1) nonNull e0 by (simp add: compactColumn_stay)
      have IH: "wf_board b' \<and>
       (\<forall>y'<GRID_SIZE. \<forall>x'<GRID_SIZE. x' \<noteq> x \<longrightarrow> b' ! y' ! x' = board ! y' ! x') \<and>
       (\<forall>y'. y + 0 \<le> y' \<and> y' < GRID_SIZE \<longrightarrow> b' ! y' ! x = board ! y' ! x) \<and>
       e' = 0 + length (filter (\<lambda>t. t = None) (colTypes board x y)) \<and>
       colTypes b' x (y + 0) = replicate e' None @ filter (\<lambda>t. t \<noteq> None) (colTypes board x y) \<and>
       ((\<forall>y'<y. gem_x (board ! y' ! x) = x \<and> gem_y (board ! y' ! x) = y') \<longrightarrow>
          (\<forall>y'. e' \<le> y' \<and> y' < y + 0 \<longrightarrow> gem_x (b' ! y' ! x) = x \<and> gem_y (b' ! y' ! x) = y')) \<and>
       (e' = 0 \<longrightarrow> b' = board)"
        by (rule Suc.IH[OF rec wf x]) (use bound in auto)
      have top: "b' ! y ! x = board ! y ! x"
        using IH y8 by simp
      have c6: "gem_x (b' ! y' ! x) = x \<and> gem_y (b' ! y' ! x) = y'"
        if coh: "\<forall>y'<Suc y. gem_x (board ! y' ! x) = x \<and> gem_y (board ! y' ! x) = y'"
          and r: "e' \<le> y'" "y' < Suc y + e" for y'
      proof (cases "y' = y")
        case True
        then show ?thesis using top coh by simp
      next
        case False
        with r e0 have "y' < y" by simp
        moreover from coh have "\<forall>y'<y. gem_x (board ! y' ! x) = x \<and> gem_y (board ! y' ! x) = y'" by simp
        ultimately show ?thesis using IH r(1) by simp
      qed
      have c5: "colTypes b' x (Suc y + e) =
          replicate e' None @ filter (\<lambda>t. t \<noteq> None) (colTypes board x (Suc y))"
        using IH nonNull top e0 by (simp add: colTypes_Suc)
      have c4: "e' = e + length (filter (\<lambda>t. t = None) (colTypes board x (Suc y)))"
        using IH nonNull e0 by (simp add: colTypes_Suc)
      have c3: "\<forall>y'. Suc y + e \<le> y' \<and> y' < GRID_SIZE \<longrightarrow> b' ! y' ! x = board ! y' ! x"
        using IH e0 by simp
      show ?thesis
        using IH c3 c4 c5 c6 by blast
    qed
  qed
qed

lemma refillColumn_unfold:
  "refillColumn rng board x e y fs =
     (if y < e then
        refillColumn (stl rng) (setCell board y x (freshGem x e y (shd rng))) x e (Suc y)
          (fs @ [freshGem x e y (shd rng)])
      else (board, rng, fs))"
  by (subst refillColumn.simps) (simp add: getRandomGemType_def Let_def freshGem_def)

lemma refillColumn_post:
  assumes "refillColumn rng board x e y fs = (b', rng', fs')"
    and "wf_board board" "y \<le> e"
  shows "wf_board b' \<and> rng' = sdrop (e - y) rng \<and>
     (\<forall>y'<GRID_SIZE. \<forall>x'<GRID_SIZE. b' ! y' ! x' =
        (if x' = x \<and> y \<le> y' \<and> y' < e then freshGem x e y' (rng !! (y' - y)) else board ! y' ! x'))"
  using assms
proof (induction "e - y" arbitrary: rng board y fs)
  case 0
  then have "y = e" by simp
  with 0(2) have "b' = board" "rng' = rng"
    by (simp_all add: refillColumn_unfold)
  with 0 \<open>y = e\<close> show ?case by auto
next
  case (Suc n)
  from Suc(2) have n: "n = e - Suc y" and y: "y < e" by simp_all
  let ?g = "freshGem x e y (shd rng)"
  let ?b1 = "setCell board y x ?g"
  have rec: "refillColumn (stl rng) ?b1 x e (Suc y) (fs @ [?g]) = (b', rng', fs')"
    using Suc.prems(1) y by (subst (asm) refillColumn_unfold) simp
  have wf1: "wf_board ?b1" using Suc.prems(2) by simp
  have IH: "wf_board b' \<and> rng' = sdrop (e - Suc y) (stl rng) \<and>
     (\<forall>y'<GRID_SIZE. \<forall>x'<GRID_SIZE. b' ! y' ! x' =
        (if x' = x \<and> Suc y \<le> y' \<and> y' < e then freshGem x e y' (stl rng !! (y' - Suc y)) else ?b1 ! y' ! x'))"
    by (rule Suc(1)[OF n rec wf1]) (use y in simp)
  from IH have ih3: "b' ! y' ! x' =
      (if x' = x \<and> Suc y \<le> y' \<and> y' < e then freshGem x e y' (stl rng !! (y' - Suc y)) else ?b1 ! y' ! x')"
    if "y' < GRID_SIZE" "x' < GRID_SIZE" for y' x'
    using that by blast
  have c2: "rng' = sdrop (e - y) rng"
  proof -
    have "e - y = Suc (e - Suc y)" using y by simp
    then show ?thesis using IH by simp
  qed
  have c3: "b' ! y' ! x' =
        (if x' = x \<and> y \<le> y' \<and> y' < e then freshGem x e y' (rng !! (y' - y)) else board ! y' ! x')"
    if "y' < GRID_SIZE" "x' < GRID_SIZE" for y' x'
  proof (cases "x' = x \<and> Suc y \<le> y' \<and> y' < e")
    case True
    then have "y' - y = Suc (y' - Suc y)" by arith
    then have "rng !! (y' - y) = stl rng !! (y' - Suc y)" by simp
    then show ?thesis using ih3[OF that] True by simp
  next
    case False
    have "b' ! y' ! x' = ?b1 ! y' ! x'"
      by (simp only: ih3[OF that] False if_False)
    also have "\<dots> = (if y' = y \<and> x' = x then ?g else board ! y' ! x')"
      by (rule nth_setCell_wf[OF Suc.prems(2) that])
    finally show ?thesis using False y by auto
  qed
  show ?case using IH c2 c3 by blast
qed

lemma collapseOne_post:
  assumes c: "compactColumn board x GRID_SIZE 0 fs = (b1, e, f1)"
    and r: "refillColumn rng b1 x e 0 f1 = (b2, rng', f2)"
    and wf: "wf_board board" and x: "x < GRID_SIZE"
  shows "wf_board b2 \<and> e = emptyCount board x \<and> rng' = sdrop e rng \<and>
     (\<forall>y'<GRID_SIZE. \<forall>x'<GRID_SIZE. x' \<noteq> x \<longrightarrow> b2 ! y' ! x' = board ! y' ! x') \<and>
     colTypes b2 x GRID_SIZE =
       map Some (stake e rng) @ filter (\<lambda>t. t \<noteq> None) (colTypes board x GRID_SIZE) \<and>
     (colCoherent board x \<longrightarrow> colCoherent b2 x) \<and>
     (e = 0 \<longrightarrow> b2 = board)"
proof -
  have C: "wf_board b1 \<and>
     (\<forall>y'<GRID_SIZE. \<forall>x'<GRID_SIZE. x' \<noteq> x \<longrightarrow> b1 ! y' ! x' = board ! y' ! x') \<and>
     (\<forall>y'. GRID_SIZE + 0 \<le> y' \<and> y' < GRID_SIZE \<longrightarrow> b1 ! y' ! x = board ! y' ! x) \<and>
     e = 0 + length (filter (\<lambda>t. t = None) (colTypes board x GRID_SIZE)) \<and>
     colTypes b1 x (GRID_SIZE + 0) = replicate e None @ filter (\<lambda>t. t \<noteq> None) (colTypes board x GRID_SIZE) \<and>
     ((\<forall>y<GRID_SIZE. gem_x (board ! y ! x) = x \<and> gem_y (board ! y ! x) = y) \<longrightarrow>
        (\<forall>y. e \<le> y \<and> y < GRID_SIZE + 0 \<longrightarrow> gem_x (b1 ! y ! x) = x \<and> gem_y (b1 ! y ! x) = y)) \<and>
     (e = 0 \<longrightarrow> b1 = board)"
    by (rule compactColumn_post[OF c wf x]) auto
  then have wf1: "wf_board b1" and e: "e = emptyCount board x"
    and ct1: "colTypes b1 x GRID_SIZE = replicate e None @ filter (\<lambda>t. t \<noteq> None) (colTypes board x GRID_SIZE)"
    by (simp_all add: emptyCount_def)
  have R: "wf_board b2 \<and> rng' = sdrop (e - 0) rng \<and>
     (\<forall>y'<GRID_SIZE. \<forall>x'<GRID_SIZE. b2 ! y' ! x' =
        (if x' = x \<and> 0 \<le> y' \<and> y' < e then freshGem x e y' (rng !! (y' - 0)) else b1 ! y' ! x'))"
    by (rule refillColumn_post[OF r wf1]) simp
  then have b2: "b2 ! y' ! x' = (if x' = x \<and> y' < e then freshGem x e y' (rng !! y') else b1 ! y' ! x')"
    if "y' < GRID_SIZE" "x' < GRID_SIZE" for y' x'
    using that by simp
  have len: "e + length (filter (\<lambda>t. t \<noteq> None) (colTypes board x GRID_SIZE)) = GRID_SIZE"
    using arg_cong[OF ct1, of length] by simp
  have ct2: "colTypes b2 x GRID_SIZE =
       map Some (stake e rng) @ filter (\<lambda>t. t \<noteq> None) (colTypes board x GRID_SIZE)"
  proof (rule nth_equalityI)
    show "length (colTypes b2 x GRID_SIZE) =
        length (map Some (stake e rng) @ filter (\<lambda>t. t \<noteq> None) (colTypes board x GRID_SIZE))"
      using len by simp
  next
    fix i assume "i < length (colTypes b2 x GRID_SIZE)"
    then have i: "i < GRID_SIZE" by simp
    show "colTypes b2 x GRID_SIZE ! i =
        (map Some (stake e rng) @ filter (\<lambda>t. t \<noteq> None) (colTypes board x GRID_SIZE)) ! i"
    proof (cases "i < e")
      case True
      then show ?thesis using i b2[OF i x] by (simp add: nth_colTypes nth_append freshGem_def)
    next
      case False
      then have "colTypes b2 x GRID_SIZE ! i = colTypes b1 x GRID_SIZE ! i"
        using i b2[OF i x] by (simp add: nth_colTypes)
      also have "\<dots> = filter (\<lambda>t. t \<noteq> None) (colTypes board x GRID_SIZE) ! (i - e)"
        unfolding ct1 using False by (simp add: nth_append)
      finally show ?thesis using False by (simp add: nth_append)
    qed
  qed
  have coh: "colCoherent b2 x" if "colCoherent board x"
    unfolding colCoherent_def
  proof (intro allI impI)
    fix y assume y: "y < GRID_SIZE"
    show "gem_x (b2 ! y ! x) = x \<and> gem_y (b2 ! y ! x) = y"
    proof (cases "y < e")
      case True
      then show ?thesis using b2[OF y x] by (simp add: freshGem_def)
    next
      case False
      then have "gem_x (b1 ! y ! x) = x \<and> gem_y (b1 ! y ! x) = y"
        using C that y unfolding colCoherent_def by simp
      then show ?thesis using False b2[OF y x] by simp
    qed
  qed
  have other: "\<forall>y'<GRID_SIZE. \<forall>x'<GRID_SIZE. x' \<noteq> x \<longrightarrow> b2 ! y' ! x' = board ! y' ! x'"
    using C b2 by simp
  have same: "b2 = board" if "e = 0"
  proof -
    have "b1 = board" using C that by blast
    moreover have "refillColumn rng b1 x 0 0 f1 = (b1, rng, f1)"
      by (simp add: refillColumn_unfold)
    ultimately show ?thesis using r that by simp
  qed
  show ?thesis
    using R e ct2 coh other same by simp
qed

lemma collapseColumns_unfold:
  "collapseColumns rng board x fs =
     (if x < GRID_SIZE then
        (case compactColumn board x GRID_SIZE 0 fs of
           (b1, e, f1) \<Rightarrow>
             (case refillColumn rng b1 x e 0 f1 of
                (b2, rng', f2) \<Rightarrow> collapseColumns rng' b2 (Suc x) f2))
      else (board, rng, fs))"
  by (subst collapseColumns.simps) simp

lemma drawsBetween_same [simp]: "drawsBetween board x x = 0"
  by (simp add: drawsBetween_def)

lemma drawsBetween_first:
  "x0 < x \<Longrightarrow> drawsBetween board x0 x = emptyCount board x0 + drawsBetween board (Suc x0) x"
  by (simp add: drawsBetween_def upt_conv_Cons)

lemma colTypes_other:
  assumes "\<forall>y'<GRID_SIZE. \<forall>x'<GRID_SIZE. x' \<noteq> x0 \<longrightarrow> b2 ! y' ! x' = board ! y' ! x'"
    and "x < GRID_SIZE" "x \<noteq> x0"
  shows "colTypes b2 x GRID_SIZE = colTypes board x GRID_SIZE"
  by (rule colTypes_cong) (use assms in simp)

lemma emptyCount_other:
  assumes "\<forall>y'<GRID_SIZE. \<forall>x'<GRID_SIZE. x' \<noteq> x0 \<longrightarrow> b2 ! y' ! x' = board ! y' ! x'"
    and "x < GRID_SIZE" "x \<noteq> x0"
  shows "emptyCount b2 x = emptyCount board x"
  unfolding emptyCount_def colTypes_other[OF assms] ..

lemma drawsBetween_other:
  assumes "\<forall>y'<GRID_SIZE. \<forall>x'<GRID_SIZE. x' \<noteq> x0 \<longrightarrow> b2 ! y' ! x' = board ! y' ! x'"
    and "x \<le> GRID_SIZE"
  shows "drawsBetween b2 (Suc x0) x = drawsBetween board (Suc x0) x"
proof -
  have "map (emptyCount b2) [Suc x0..<x] = map (emptyCount board) [Suc x0..<x]"
    by (rule map_cong[OF refl]) (use assms in \<open>auto intro!: emptyCount_other\<close>)
  then show ?thesis unfolding drawsBetween_def by (rule arg_cong)
qed

lemma colCoherent_other:
  assumes "\<forall>y'<GRID_SIZE. \<forall>x'<GRID_SIZE. x' \<noteq> x0 \<longrightarrow> b2 ! y' ! x' = board ! y' ! x'"
    and "x < GRID_SIZE" "x \<noteq> x0"
  shows "colCoherent b2 x = colCoherent board x"
  unfolding colCoherent_def using assms by simp

lemma collapseColumns_post:
  assumes "collapseColumns rng board x0 fs = (b', rng', fs')" and "wf_board board"
  shows "wf_board b' \<and> rng' = sdrop (drawsBetween board x0 GRID_SIZE) rng \<and>
     (\<forall>x<GRID_SIZE. x < x0 \<longrightarrow> (\<forall>y<GRID_SIZE. b' ! y ! x = board ! y ! x)) \<and>
     (\<forall>x<GRID_SIZE. x0 \<le> x \<longrightarrow>
        colTypes b' x GRID_SIZE =
          map Some (stake (emptyCount board x) (sdrop (drawsBetween board x0 x) rng)) @
          filter (\<lambda>t. t \<noteq> None) (colTypes board x GRID_SIZE) \<and>
        (colCoherent board x \<longrightarrow> colCoherent b' x) \<and>
        (emptyCount board x = 0 \<longrightarrow> (\<forall>y<GRID_SIZE. b' ! y ! x = board ! y ! x)))"
  using assms
proof (induction "GRID_SIZE - x0" arbitrary: rng board x0 fs)
  case 0
  then have "GRID_SIZE \<le> x0" by simp
  with 0(2) have "b' = board" "rng' = rng"
    by (simp_all add: collapseColumns_unfold)
  with 0(3) \<open>GRID_SIZE \<le> x0\<close> show ?case
    by (simp add: drawsBetween_def)
next
  case (Suc n)
  from Suc(2) have n: "n = GRID_SIZE - Suc x0" and x0: "x0 < GRID_SIZE" by simp_all
  obtain b1 e f1 where c: "compactColumn board x0 GRID_SIZE 0 fs = (b1, e, f1)"
    by (cases "compactColumn board x0 GRID_SIZE 0 fs") auto
  obtain b2 rng1 f2 where r: "refillColumn rng b1 x0 e 0 f1 = (b2, rng1, f2)"
    by (cases "refillColumn rng b1 x0 e 0 f1") auto
  have rec: "collapseColumns rng1 b2 (Suc x0) f2 = (b', rng', fs')"
    using Suc.prems(1) x0 c r by (subst (asm) collapseColumns_unfold) simp
  have One: "wf_board b2 \<and> e = emptyCount board x0 \<and> rng1 = sdrop e rng \<and>
     (\<forall>y'<GRID_SIZE. \<forall>x'<GRID_SIZE. x' \<noteq> x0 \<longrightarrow> b2 ! y' ! x' = board ! y' ! x') \<and>
     colTypes b2 x0 GRID_SIZE =
       map Some (stake e rng) @ filter (\<lambda>t. t \<noteq> None) (colTypes board x0 GRID_SIZE) \<and>
     (colCoherent board x0 \<longrightarrow> colCoherent b2 x0) \<and>
     (e = 0 \<longrightarrow> b2 = board)"
    by (rule collapseOne_post[OF c r Suc.prems(2) x0])
  then have wf2: "wf_board b2" and e: "e = emptyCount board x0" and rng1: "rng1 = sdrop e rng"
    and other: "\<forall>y'<GRID_SIZE. \<forall>x'<GRID_SIZE. x' \<noteq> x0 \<longrightarrow> b2 ! y' ! x' = board ! y' ! x'"
    and ct0: "colTypes b2 x0 GRID_SIZE =
       map Some (stake e rng) @ filter (\<lambda>t. t \<noteq> None) (colTypes board x0 GRID_SIZE)"
    and coh0: "colCoherent board x0 \<longrightarrow> colCoherent b2 x0"
    and same0: "e = 0 \<longrightarrow> b2 = board"
    by blast+
  have IH: "wf_board b' \<and> rng' = sdrop (drawsBetween b2 (Suc x0) GRID_SIZE) rng1 \<and>
     (\<forall>x<GRID_SIZE. x < Suc x0 \<longrightarrow> (\<forall>y<GRID_SIZE. b' ! y ! x = b2 ! y ! x)) \<and>
     (\<forall>x<GRID_SIZE. Suc x0 \<le> x \<longrightarrow>
        colTypes b' x GRID_SIZE =
          map Some (stake (emptyCount b2 x) (sdrop (drawsBetween b2 (Suc x0) x) rng1)) @
          filter (\<lambda>t. t \<noteq> None) (colTypes b2 x GRID_SIZE) \<and>
        (colCoherent b2 x \<longrightarrow> colCoherent b' x) \<and>
        (emptyCount b2 x = 0 \<longrightarrow> (\<forall>y<GRID_SIZE. b' ! y ! x = b2 ! y ! x)))"
    by (rule Suc(1)[OF n rec wf2])
  then have ihwf: "wf_board b'"
    and ihrng: "rng' = sdrop (drawsBetween b2 (Suc x0) GRID_SIZE) rng1"
    and ihlow: "\<And>x y. x < GRID_SIZE \<Longrightarrow> x < Suc x0 \<Longrightarrow> y < GRID_SIZE \<Longrightarrow> b' ! y ! x = b2 ! y ! x"
    and ihhigh: "\<And>x. x < GRID_SIZE \<Longrightarrow> Suc x0 \<le> x \<Longrightarrow>
        colTypes b' x GRID_SIZE =
          map Some (stake (emptyCount b2 x) (sdrop (drawsBetween b2 (Suc x0) x) rng1)) @
          filter (\<lambda>t. t \<noteq> None) (colTypes b2 x GRID_SIZE) \<and>
        (colCoherent b2 x \<longrightarrow> colCoherent b' x) \<and>
        (emptyCount b2 x = 0 \<longrightarrow> (\<forall>y<GRID_SIZE. b' ! y ! x = b2 ! y ! x))"
    by blast+
  have c2: "rng' = sdrop (drawsBetween board x0 GRID_SIZE) rng"
    unfolding ihrng rng1 drawsBetween_other[OF other order_refl] drawsBetween_first[OF x0] e
    by simp
  have c3: "b' ! y ! x = board ! y ! x" if "x < GRID_SIZE" "x < x0" "y < GRID_SIZE" for x y
    using ihlow[of x y] other that by simp
  have c4: "colTypes b' x GRID_SIZE =
          map Some (stake (emptyCount board x) (sdrop (drawsBetween board x0 x) rng)) @
          filter (\<lambda>t. t \<noteq> None) (colTypes board x GRID_SIZE) \<and>
        (colCoherent board x \<longrightarrow> colCoherent b' x) \<and>
        (emptyCount board x = 0 \<longrightarrow> (\<forall>y<GRID_SIZE. b' ! y ! x = board ! y ! x))"
    if x: "x < GRID_SIZE" "x0 \<le> x" for x
  proof (cases "x = x0")
    case True
    have cells: "b' ! y ! x0 = b2 ! y ! x0" if "y < GRID_SIZE" for y
      using ihlow[OF x0 _ that] by simp
    have "colTypes b' x0 GRID_SIZE = colTypes b2 x0 GRID_SIZE"
      by (rule colTypes_cong) (simp add: cells)
    moreover have "colCoherent b' x0 = colCoherent b2 x0"
      unfolding colCoherent_def by (simp add: cells)
    ultimately show ?thesis
      unfolding True using ct0 coh0 same0 cells e by simp
  next
    case False
    with x have gt: "Suc x0 \<le> x" "x0 < x" "x \<noteq> x0" by simp_all
    have d: "sdrop (drawsBetween b2 (Suc x0) x) rng1 = sdrop (drawsBetween board x0 x) rng"
      unfolding rng1 drawsBetween_other[OF other less_imp_le[OF x(1)]] drawsBetween_first[OF gt(2)] e
      by simp
    have cells: "b2 ! y ! x = board ! y ! x" if "y < GRID_SIZE" for y
      using other that x(1) gt(3) by simp
    show ?thesis
      using ihhigh[OF x(1) gt(1)]
      unfolding d emptyCount_other[OF other x(1) gt(3)] colTypes_other[OF other x(1) gt(3)]
        colCoherent_other[OF other x(1) gt(3)]
      by (simp add: cells)
  qed
  show ?case
    using ihwf c2 c3 c4 by blast
qed

lemma coherent_iff:
  "wf_board board \<Longrightarrow> coherent board \<longleftrightarrow> (\<forall>x<GRID_SIZE. colCoherent board x)"
  unfolding coherent_def colCoherent_def wf_board_nth by auto

lemma fullBoard_iff:
  "wf_board board \<Longrightarrow>
   fullBoard board \<longleftrightarrow> (\<forall>y<GRID_SIZE. \<forall>x<GRID_SIZE. gem_type (board ! y ! x) \<noteq> None)"
  unfolding fullBoard_def wf_board_nth
  by (simp add: all_set_conv_all_nth del: not_None_eq)

lemma collapseBoard_post:
  assumes "collapseBoard board rng = (b', rng', fs')" and "wf_board board"
  shows "wf_board b' \<and> rng' = sdrop (drawsBetween board 0 GRID_SIZE) rng \<and>
     (\<forall>x<GRID_SIZE.
        colTypes b' x GRID_SIZE =
          map Some (stake (emptyCount board x) (sdrop (drawsBetween board 0 x) rng)) @
          filter (\<lambda>t. t \<noteq> None) (colTypes board x GRID_SIZE) \<and>
        (colCoherent board x \<longrightarrow> colCoherent b' x) \<and>
        (emptyCount board x = 0 \<longrightarrow> (\<forall>y<GRID_SIZE. b' ! y ! x = board ! y ! x)))"
  using collapseColumns_post[OF assms(1)[unfolded collapseBoard_def] assms(2)] by simp

lemma collapseBoard_wf:
  "collapseBoard board rng = (b', rng', fs') \<Longrightarrow> wf_board board \<Longrightarrow> wf_board b'"
  using collapseBoard_post by blast

lemma collapseBoard_coherent:
  assumes "collapseBoard board rng = (b', rng', fs')" "wf_board board" "coherent board"
  shows "coherent b'"
proof -
  have "\<forall>x<GRID_SIZE. colCoherent b' x"
    using collapseBoard_post[OF assms(1,2)] assms(3) coherent_iff[OF assms(2)] by blast
  then show ?thesis
    using coherent_iff[OF collapseBoard_wf[OF assms(1,2)]] by blast
qed

lemma collapseBoard_full:
  assumes "collapseBoard board rng = (b', rng', fs')" "wf_board board"
  shows "fullBoard b'"
proof -
  have wf': "wf_board b'" using assms by (rule collapseBoard_wf)
  have "gem_type (b' ! y ! x) \<noteq> None" if "y < GRID_SIZE" "x < GRID_SIZE" for y x
  proof -
    have ct: "colTypes b' x GRID_SIZE =
          map Some (stake (emptyCount board x) (sdrop (drawsBetween board 0 x) rng)) @
          filter (\<lambda>t. t \<noteq> None) (colTypes board x GRID_SIZE)"
      using collapseBoard_post[OF assms] that(2) by blast
    have "gem_type (b' ! y ! x) = colTypes b' x GRID_SIZE ! y"
      using that(1) by (simp add: nth_colTypes)
    moreover have "colTypes b' x GRID_SIZE ! y \<in> set (colTypes b' x GRID_SIZE)"
      using that(1) by (intro nth_mem) simp
    moreover have "None \<notin> set (colTypes b' x GRID_SIZE)"
      unfolding ct by auto
    ultimately show ?thesis by metis
  qed
  then show ?thesis using fullBoard_iff[OF wf'] by blast
qed

lemma boardInv_wf: "length board = GRID_SIZE \<Longrightarrow> boardInv board \<Longrightarrow> wf_board board"
  by (simp add: wf_board_nth boardInv_def)

lemma boardInv_cell:
  assumes "length board = GRID_SIZE" "boardInv board" "y < GRID_SIZE" "x < GRID_SIZE"
  shows "gem_x (board ! y ! x) = x \<and> gem_y (board ! y ! x) = y \<and> gem_type (board ! y ! x) \<noteq> None"
proof -
  have "length (board ! y) = GRID_SIZE" "rowInv board y (board ! y)"
    using assms(1,2,3) by (simp_all add: boardInv_def)
  then show ?thesis
    unfolding rowInv_def using assms(4) by metis
qed

lemma boardInv_coherent: "length board = GRID_SIZE \<Longrightarrow> boardInv board \<Longrightarrow> coherent board"
  using boardInv_cell boardInv_wf coherent_iff colCoherent_def by metis

lemma boardInv_full: "length board = GRID_SIZE \<Longrightarrow> boardInv board \<Longrightarrow> fullBoard board"
  using boardInv_cell boardInv_wf fullBoard_iff by metis

lemma boardInv_no_tripleH:
  assumes "length board = GRID_SIZE" "boardInv board" "y < GRID_SIZE" "x < GRID_SIZE - 2"
  shows "\<not> tripleH board y x"
proof -
  have "length (board ! y) = GRID_SIZE" "rowInv board y (board ! y)"
    using assms(1,2,3) by (simp_all add: boardInv_def)
  moreover have "x + 2 < GRID_SIZE" using assms(4) by simp
  ultimately have "\<not> (gem_type (board ! y ! x) = gem_type (board ! y ! (x + 1)) \<and>
      gem_type (board ! y ! x) = gem_type (board ! y ! (x + 2)))"
    unfolding rowInv_def by metis
  then show ?thesis unfolding tripleH_def by blast
qed

lemma boardInv_no_tripleV:
  assumes "length board = GRID_SIZE" "boardInv board" "x < GRID_SIZE" "y < GRID_SIZE - 2"
  shows "\<not> tripleV board x y"
proof -
  have y2: "y + 2 < GRID_SIZE" "2 \<le> y + 2" "y + 2 - 1 = y + 1" "y + 2 - 2 = y"
    using assms(4) by simp_all
  have len: "length (board ! (y + 2)) = GRID_SIZE" "length (board ! (y + 1)) = GRID_SIZE"
      "length (board ! y) = GRID_SIZE"
    and inv: "rowInv board (y + 2) (board ! (y + 2))"
    using assms(1,2) y2(1) by (simp_all add: boardInv_def)
  from inv have "\<forall>i<length (board ! (y + 2)).
        \<not> (typeAt (board ! (y + 2 - 1)) i = gem_type (board ! (y + 2) ! i) \<and>
           typeAt (board ! (y + 2 - 2)) i = gem_type (board ! (y + 2) ! i))"
    unfolding rowInv_def using y2(2) by blast
  then have "\<not> (typeAt (board ! (y + 1)) x = gem_type (board ! (y + 2) ! x) \<and>
           typeAt (board ! y) x = gem_type (board ! (y + 2) ! x))"
    unfolding y2(3,4) using assms(3) len(1) by simp
  then have "\<not> (gem_type (board ! (y + 1) ! x) = gem_type (board ! (y + 2) ! x) \<and>
           gem_type (board ! y ! x) = gem_type (board ! (y + 2) ! x))"
    using assms(3) len by (simp add: typeAt_def)
  then show ?thesis unfolding tripleV_def by metis
qed

lemma boardInv_not_inRun:
  assumes "length board = GRID_SIZE" "boardInv board" "y < GRID_SIZE" "x < GRID_SIZE"
  shows "\<not> inRun board y x"
proof -
  have "\<not> covH board y s x" for s
    using boardInv_no_tripleH[OF assms(1,2,3)] covH_bound covH_triple by blast
  moreover have "\<not> covV board x s y" for s
    using boardInv_no_tripleV[OF assms(1,2,4)] covV_bound covV_triple by blast
  ultimately show ?thesis
    unfolding inRun_def using covH_inRunH[OF assms(4)] covV_inRunV[OF assms(3)] by blast
qed

lemma findMatches_Nil_iff:
  "findMatches board = [] \<longleftrightarrow> (\<forall>y<GRID_SIZE. \<forall>x<GRID_SIZE. \<not> inRun board y x)"
  unfolding findMatches_inRun by (auto simp: filter_empty_conv)

lemma set_findMatches:
  "set (findMatches board) = {board ! y ! x | y x. y < GRID_SIZE \<and> x < GRID_SIZE \<and> inRun board y x}"
  unfolding findMatches_inRun by (auto, blast)

lemma wf_removeMatches: "wf_board board \<Longrightarrow> wf_board (removeMatches board gems)"
  by (induction gems arbitrary: board) simp_all

lemma nth_removeMatches:
  "wf_board board \<Longrightarrow> y < GRID_SIZE \<Longrightarrow> x < GRID_SIZE \<Longrightarrow>
   removeMatches board gems ! y ! x =
     (if (\<exists>g \<in> set gems. gem_y g = y \<and> gem_x g = x)
      then (board ! y ! x)\<lparr>gem_type := None\<rparr> else board ! y ! x)"
proof (induction gems arbitrary: board)
  case Nil
  then show ?case by simp
next
  case (Cons g gems)
  let ?b1 = "setCell board (gem_y g) (gem_x g) ((board ! gem_y g ! gem_x g)\<lparr>gem_type := None\<rparr>)"
  have wf1: "wf_board ?b1" using Cons.prems(1) by simp
  have b1: "?b1 ! y ! x = (if y = gem_y g \<and> x = gem_x g
      then (board ! y ! x)\<lparr>gem_type := None\<rparr> else board ! y ! x)"
    using nth_setCell_wf[OF Cons.prems] by simp
  have "removeMatches board (g # gems) ! y ! x = removeMatches ?b1 gems ! y ! x" by simp
  also have "\<dots> = (if (\<exists>g \<in> set gems. gem_y g = y \<and> gem_x g = x)
      then (?b1 ! y ! x)\<lparr>gem_type := None\<rparr> else ?b1 ! y ! x)"
    by (rule Cons.IH[OF wf1 Cons.prems(2,3)])
  also have "\<dots> = (if (\<exists>g \<in> set (g # gems). gem_y g = y \<and> gem_x g = x)
      then (board ! y ! x)\<lparr>gem_type := None\<rparr> else board ! y ! x)"
    unfolding b1 by auto
  finally show ?case .
qed

lemma removeMatches_coords:
  assumes "wf_board board" "y < GRID_SIZE" "x < GRID_SIZE"
  shows "gem_x (removeMatches board gems ! y ! x) = gem_x (board ! y ! x) \<and>
         gem_y (removeMatches board gems ! y ! x) = gem_y (board ! y ! x)"
  unfolding nth_removeMatches[OF assms] by simp

lemma coherent_removeMatches:
  assumes "wf_board board" "coherent board"
  shows "coherent (removeMatches board gems)"
proof -
  have "colCoherent (removeMatches board gems) x" if "x < GRID_SIZE" for x
    using assms that removeMatches_coords[OF assms(1) _ that]
    unfolding coherent_iff[OF assms(1)] colCoherent_def by simp
  then show ?thesis
    using coherent_iff[OF wf_removeMatches[OF assms(1)]] by blast
qed

lemma removeMatches_findMatches:
  assumes wf: "wf_board board" and coh: "coherent board" and y: "y < GRID_SIZE" and x: "x < GRID_SIZE"
  shows "removeMatches board (findMatches board) ! y ! x =
     (if inRun board y x then (board ! y ! x)\<lparr>gem_type := None\<rparr> else board ! y ! x)"
proof -
  have cell: "gem_x (board ! y' ! x') = x' \<and> gem_y (board ! y' ! x') = y'"
    if "y' < GRID_SIZE" "x' < GRID_SIZE" for y' x'
    using coh that unfolding coherent_iff[OF wf] colCoherent_def by blast
  have "(\<exists>g \<in> set (findMatches board). gem_y g = y \<and> gem_x g = x) \<longleftrightarrow> inRun board y x"
  proof
    assume "\<exists>g \<in> set (findMatches board). gem_y g = y \<and> gem_x g = x"
    then obtain y' x' where g: "y' < GRID_SIZE" "x' < GRID_SIZE" "inRun board y' x'"
      "gem_y (board ! y' ! x') = y" "gem_x (board ! y' ! x') = x"
      unfolding set_findMatches by auto
    with cell[OF g(1,2)] show "inRun board y x" by simp
  next
    assume "inRun board y x"
    then have "board ! y ! x \<in> set (findMatches board)"
      unfolding set_findMatches using y x by blast
    then show "\<exists>g \<in> set (findMatches board). gem_y g = y \<and> gem_x g = x"
      using cell[OF y x] by blast
  qed
  then show ?thesis
    unfolding nth_removeMatches[OF wf y x] by simp
qed

lemma cascadeState_0 [simp]: "cascadeState 0 board rng = (board, rng)"
  by (simp add: cascadeState_def)

lemma cascadeState_Suc:
  "cascadeState (Suc n) board rng =
     (case cascadeStep (board, rng) of (b1, r1) \<Rightarrow> cascadeState n b1 r1)"
  by (simp add: cascadeState_def funpow_swap1 split: prod.split)

lemma cascade_unfold:
  "cascade board rng totalScore (findMatches board) =
     (if findMatches board = [] then Some (board, rng, totalScore)
      else (case cascadeStep (board, rng) of (b1, r1) \<Rightarrow>
              cascade b1 r1 (totalScore + int (length (findMatches board)) * 100) (findMatches b1)))"
  by (subst cascade.simps) (simp add: cascadeStep_def Let_def split: prod.split)

lemma sum_shift: "(\<Sum>i<Suc n. f i) = f 0 + (\<Sum>i<n. f (Suc i))" for f :: "nat \<Rightarrow> int"
  by (rule sum.lessThan_Suc_shift)

lemma cascade_terminates:
  "findMatches (fst (cascadeState n board rng)) = [] \<Longrightarrow>
   \<forall>i<n. findMatches (fst (cascadeState i board rng)) \<noteq> [] \<Longrightarrow>
   cascade board rng totalScore (findMatches board) =
     Some (fst (cascadeState n board rng), snd (cascadeState n board rng),
           totalScore + 100 * (\<Sum>i<n. int (matchCount i board rng)))"
proof (induction n arbitrary: board rng totalScore)
  case 0
  then show ?case by (subst cascade_unfold) simp
next
  case (Suc n)
  obtain b1 r1 where st: "cascadeStep (board, rng) = (b1, r1)"
    by (cases "cascadeStep (board, rng)") auto
  have ne: "findMatches board \<noteq> []"
    using Suc.prems(2)[rule_format, of 0] by simp
  have shift: "cascadeState (Suc i) board rng = cascadeState i b1 r1" for i
    by (simp add: cascadeState_Suc st)
  have a: "findMatches (fst (cascadeState n b1 r1)) = []"
    using Suc.prems(1) by (simp add: shift)
  have b: "\<forall>i<n. findMatches (fst (cascadeState i b1 r1)) \<noteq> []"
    using Suc.prems(2) shift by (metis Suc_less_eq)
  have mc: "matchCount (Suc i) board rng = matchCount i b1 r1" for i
    by (simp add: matchCount_def shift)
  have m0: "int (matchCount 0 board rng) = int (length (findMatches board))"
    by (simp add: matchCount_def)
  have S: "(\<Sum>i<Suc n. int (matchCount i board rng)) =
      int (length (findMatches board)) + (\<Sum>i<n. int (matchCount i b1 r1))"
    by (simp only: sum_shift mc m0)
  show ?case
    using ne Suc.IH[OF a b, of "totalScore + int (length (findMatches board)) * 100"]
    by (subst cascade_unfold) (simp add: st shift S algebra_simps del: sum.lessThan_Suc)
qed

lemma cascade_Some:
  assumes a: "cascade board rng totalScore matches = Some r" and m: "matches = findMatches board"
  shows "\<exists>n. findMatches (fst (cascadeState n board rng)) = [] \<and>
       (\<forall>i<n. findMatches (fst (cascadeState i board rng)) \<noteq> []) \<and>
       r = (fst (cascadeState n board rng), snd (cascadeState n board rng),
            totalScore + 100 * (\<Sum>i<n. int (matchCount i board rng)))"
proof -
  let ?P = "\<lambda>board rng totalScore matches r. matches = findMatches board \<longrightarrow>
     (\<exists>n. findMatches (fst (cascadeState n board rng)) = [] \<and>
       (\<forall>i<n. findMatches (fst (cascadeState i board rng)) \<noteq> []) \<and>
       r = (fst (cascadeState n board rng), snd (cascadeState n board rng),
            totalScore + 100 * (\<Sum>i<n. int (matchCount i board rng))))"
  have "?P board rng totalScore matches r"
  proof (rule cascade.raw_induct[where P = ?P, OF _ a], intro impI)
    fix cascade' board rng totalScore matches r
    assume IH: "\<And>board rng totalScore matches r.
        cascade' board rng totalScore matches = Some r \<Longrightarrow> ?P board rng totalScore matches r"
      and step: "(if 0 < length matches
         then let totalScore' = totalScore + int (length matches) * 100;
                  board1 = removeMatches board matches
              in case collapseBoard board1 rng of
                 (board2, rng', fallingGems) \<Rightarrow> cascade' board2 rng' totalScore' (findMatches board2)
         else Some (board, rng, totalScore)) = Some r"
      and m: "matches = findMatches board"
    show "\<exists>n. findMatches (fst (cascadeState n board rng)) = [] \<and>
       (\<forall>i<n. findMatches (fst (cascadeState i board rng)) \<noteq> []) \<and>
       r = (fst (cascadeState n board rng), snd (cascadeState n board rng),
            totalScore + 100 * (\<Sum>i<n. int (matchCount i board rng)))"
    proof (cases "findMatches board = []")
      case True
      then have "r = (board, rng, totalScore)" using step m by simp
      with True show ?thesis by (intro exI[of _ 0]) simp
    next
      case False
      obtain b1 r1 where st: "cascadeStep (board, rng) = (b1, r1)"
        by (cases "cascadeStep (board, rng)") auto
      have rec: "cascade' b1 r1 (totalScore + int (length (findMatches board)) * 100) (findMatches b1) = Some r"
        using step False st unfolding m
        by (simp add: cascadeStep_def Let_def split: prod.splits)
      from IH[OF rec] obtain n where n:
        "findMatches (fst (cascadeState n b1 r1)) = []"
        "\<forall>i<n. findMatches (fst (cascadeState i b1 r1)) \<noteq> []"
        "r = (fst (cascadeState n b1 r1), snd (cascadeState n b1 r1),
              totalScore + int (length (findMatches board)) * 100 + 100 * (\<Sum>i<n. int (matchCount i b1 r1)))"
        by blast
      have shift: "cascadeState (Suc i) board rng = cascadeState i b1 r1" for i
        by (simp add: cascadeState_Suc st)
      have mc: "matchCount (Suc i) board rng = matchCount i b1 r1" for i
        by (simp add: matchCount_def shift)
      have m0: "int (matchCount 0 board rng) = int (length (findMatches board))"
        by (simp add: matchCount_def)
      have S: "(\<Sum>i<Suc n. int (matchCount i board rng)) =
          int (length (findMatches board)) + (\<Sum>i<n. int (matchCount i b1 r1))"
        by (simp only: sum_shift mc m0)
      have "\<forall>i<Suc n. findMatches (fst (cascadeState i board rng)) \<noteq> []"
      proof (intro allI impI)
        fix i assume "i < Suc n"
        then show "findMatches (fst (cascadeState i board rng)) \<noteq> []"
          using n(2) False shift by (cases i) simp_all
      qed
      moreover have "findMatches (fst (cascadeState (Suc n) board rng)) = []"
        using n(1) by (simp add: shift)
      moreover have "r = (fst (cascadeState (Suc n) board rng), snd (cascadeState (Suc n) board rng),
              totalScore + 100 * (\<Sum>i<Suc n. int (matchCount i board rng)))"
        unfolding n(3) S by (simp add: shift algebra_simps)
      ultimately show ?thesis by blast
    qed
  qed
  then show ?thesis using m by blast
qed

lemma countWhile_eq: "countWhile p is c = c + length (takeWhile p is)"
  by (induction "is" arbitrary: c) simp_all

lemma le_length_takeWhile:
  "k \<le> length (takeWhile p xs) \<longleftrightarrow> k \<le> length xs \<and> (\<forall>i<k. p (xs ! i))"
proof (induction xs arbitrary: k)
  case Nil
  then show ?case by auto
next
  case (Cons a xs)
  show ?case
  proof (cases k)
    case 0
    then show ?thesis by simp
  next
    case (Suc j)
    show ?thesis
      unfolding Suc using Cons.IH[of j]
      by (auto simp: less_Suc_eq_0_disj)
  qed
qed

lemma line_count:
  assumes y: "y < N"
  shows "3 \<le> 1 + length (takeWhile p (rev [0..<y])) + length (takeWhile p [y + 1..<N]) \<longleftrightarrow>
     (\<exists>lo hi. lo \<le> y \<and> y \<le> hi \<and> hi < N \<and> lo + 2 \<le> hi \<and>
        (\<forall>k. lo \<le> k \<and> k \<le> hi \<and> k \<noteq> y \<longrightarrow> p k))"
    (is "?L \<longleftrightarrow> ?R")
proof
  let ?up = "length (takeWhile p (rev [0..<y]))"
  let ?down = "length (takeWhile p [y + 1..<N])"
  assume L: ?L
  have up: "?up \<le> y" "\<forall>i<?up. p (rev [0..<y] ! i)"
    using le_length_takeWhile[of ?up p "rev [0..<y]"] by simp_all
  have down: "?down \<le> N - (y + 1)" "\<forall>i<?down. p ([y + 1..<N] ! i)"
    using le_length_takeWhile[of ?down p "[y + 1..<N]"] by simp_all
  have below: "p k" if "y - ?up \<le> k" "k < y" for k
  proof -
    have i: "y - Suc k < ?up" using that up(1) by arith
    have "rev [0..<y] ! (y - Suc k) = k"
      using that by (simp add: rev_nth)
    with up(2) i show ?thesis by metis
  qed
  have above: "p k" if "y < k" "k \<le> y + ?down" for k
  proof -
    have i: "k - (y + 1) < ?down" using that by arith
    have "[y + 1..<N] ! (k - (y + 1)) = k"
      using that down(1) y by simp
    with down(2) i show ?thesis by metis
  qed
  have "\<forall>k. y - ?up \<le> k \<and> k \<le> y + ?down \<and> k \<noteq> y \<longrightarrow> p k"
  proof (intro allI impI)
    fix k assume k: "y - ?up \<le> k \<and> k \<le> y + ?down \<and> k \<noteq> y"
    show "p k"
    proof (cases "k < y")
      case True
      with k show ?thesis by (intro below) simp_all
    next
      case False
      with k show ?thesis by (intro above) simp_all
    qed
  qed
  moreover have "y - ?up \<le> y" "y \<le> y + ?down" "y + ?down < N" "y - ?up + 2 \<le> y + ?down"
    using L up(1) down(1) y by simp_all
  ultimately show ?R by blast
next
  let ?up = "length (takeWhile p (rev [0..<y]))"
  let ?down = "length (takeWhile p [y + 1..<N])"
  assume ?R
  then obtain lo hi where r: "lo \<le> y" "y \<le> hi" "hi < N" "lo + 2 \<le> hi"
    and all: "\<And>k. lo \<le> k \<Longrightarrow> k \<le> hi \<Longrightarrow> k \<noteq> y \<Longrightarrow> p k"
    by blast
  have "y - lo \<le> ?up"
    unfolding le_length_takeWhile
  proof (intro conjI allI impI)
    show "y - lo \<le> length (rev [0..<y])" by simp
  next
    fix i assume i: "i < y - lo"
    then have "rev [0..<y] ! i = y - Suc i" by (simp add: rev_nth)
    moreover have "p (y - Suc i)" using i r by (intro all) simp_all
    ultimately show "p (rev [0..<y] ! i)" by simp
  qed
  moreover have "hi - y \<le> ?down"
    unfolding le_length_takeWhile
  proof (intro conjI allI impI)
    show "hi - y \<le> length [y + 1..<N]" using r by simp
  next
    fix i assume i: "i < hi - y"
    then have "[y + 1..<N] ! i = y + 1 + i" using r by simp
    moreover have "p (y + 1 + i)" using i r by (intro all) simp_all
    ultimately show "p ([y + 1..<N] ! i)" by simp
  qed
  ultimately show ?L using r by simp
qed

lemma inRunV_iff:
  assumes "gem_type (board ! y ! x) = Some t" "y < GRID_SIZE"
  shows "inRunV board y x \<longleftrightarrow>
     (\<exists>lo hi. lo \<le> y \<and> y \<le> hi \<and> hi < GRID_SIZE \<and> lo + 2 \<le> hi \<and>
        (\<forall>k. lo \<le> k \<and> k \<le> hi \<and> k \<noteq> y \<longrightarrow> gem_type (board ! k ! x) = Some t))"
    (is "?L \<longleftrightarrow> ?R")
proof
  assume ?L
  then obtain lo hi where r: "lo \<le> y" "y \<le> hi" "vrun board x lo hi"
    unfolding inRunV_def by auto
  then have b: "lo + 2 \<le> hi" "hi < GRID_SIZE"
    and allk: "\<And>k. k \<in> {lo..hi} \<Longrightarrow> gem_type (board ! k ! x) = gem_type (board ! lo ! x)"
    unfolding vrun_def by blast+
  have "gem_type (board ! y ! x) = gem_type (board ! lo ! x)"
    by (rule allk) (simp add: r)
  then have lo: "gem_type (board ! lo ! x) = Some t" using assms(1) by simp
  have "\<forall>k. lo \<le> k \<and> k \<le> hi \<and> k \<noteq> y \<longrightarrow> gem_type (board ! k ! x) = Some t"
  proof (intro allI impI)
    fix k assume "lo \<le> k \<and> k \<le> hi \<and> k \<noteq> y"
    then have "k \<in> {lo..hi}" by simp
    from allk[OF this] lo show "gem_type (board ! k ! x) = Some t" by simp
  qed
  with r b show ?R by blast
next
  assume ?R
  then obtain lo hi where r: "lo \<le> y" "y \<le> hi" "hi < GRID_SIZE" "lo + 2 \<le> hi"
    and all: "\<And>k. lo \<le> k \<Longrightarrow> k \<le> hi \<Longrightarrow> k \<noteq> y \<Longrightarrow> gem_type (board ! k ! x) = Some t"
    by blast
  have every: "gem_type (board ! k ! x) = Some t" if "k \<in> {lo..hi}" for k
  proof (cases "k = y")
    case True
    then show ?thesis using assms(1) by simp
  next
    case False
    with that show ?thesis by (intro all) simp_all
  qed
  have lo: "gem_type (board ! lo ! x) = Some t"
    by (rule every) (use r in simp)
  have "\<forall>k \<in> {lo..hi}. gem_type (board ! k ! x) = gem_type (board ! lo ! x)"
    unfolding lo using every by blast
  then have "vrun board x lo hi"
    unfolding vrun_def using r lo by simp
  moreover have "lo \<in> {0..y}" "hi \<in> {y..<GRID_SIZE}" using r by simp_all
  ultimately show ?L
    unfolding inRunV_def by blast
qed

lemma inRunH_iff:
  assumes "gem_type (board ! y ! x) = Some t" "x < GRID_SIZE"
  shows "inRunH board y x \<longleftrightarrow>
     (\<exists>lo hi. lo \<le> x \<and> x \<le> hi \<and> hi < GRID_SIZE \<and> lo + 2 \<le> hi \<and>
        (\<forall>k. lo \<le> k \<and> k \<le> hi \<and> k \<noteq> x \<longrightarrow> gem_type (board ! y ! k) = Some t))"
    (is "?L \<longleftrightarrow> ?R")
proof
  assume ?L
  then obtain lo hi where r: "lo \<le> x" "x \<le> hi" "hrun board y lo hi"
    unfolding inRunH_def by auto
  then have b: "lo + 2 \<le> hi" "hi < GRID_SIZE"
    and allk: "\<And>k. k \<in> {lo..hi} \<Longrightarrow> gem_type (board ! y ! k) = gem_type (board ! y ! lo)"
    unfolding hrun_def by blast+
  have "gem_type (board ! y ! x) = gem_type (board ! y ! lo)"
    by (rule allk) (simp add: r)
  then have lo: "gem_type (board ! y ! lo) = Some t" using assms(1) by simp
  have "\<forall>k. lo \<le> k \<and> k \<le> hi \<and> k \<noteq> x \<longrightarrow> gem_type (board ! y ! k) = Some t"
  proof (intro allI impI)
    fix k assume "lo \<le> k \<and> k \<le> hi \<and> k \<noteq> x"
    then have "k \<in> {lo..hi}" by simp
    from allk[OF this] lo show "gem_type (board ! y ! k) = Some t" by simp
  qed
  with r b show ?R by blast
next
  assume ?R
  then obtain lo hi where r: "lo \<le> x" "x \<le> hi" "hi < GRID_SIZE" "lo + 2 \<le> hi"
    and all: "\<And>k. lo \<le> k \<Longrightarrow> k \<le> hi \<Longrightarrow> k \<noteq> x \<Longrightarrow> gem_type (board ! y ! k) = Some t"
    by blast
  have every: "gem_type (board ! y ! k) = Some t" if "k \<in> {lo..hi}" for k
  proof (cases "k = x")
    case True
    then show ?thesis using assms(1) by simp
  next
    case False
    with that show ?thesis by (intro all) simp_all
  qed
  have lo: "gem_type (board ! y ! lo) = Some t"
    by (rule every) (use r in simp)
  have "\<forall>k \<in> {lo..hi}. gem_type (board ! y ! k) = gem_type (board ! y ! lo)"
    unfolding lo using every by blast
  then have "hrun board y lo hi"
    unfolding hrun_def using r lo by simp
  moreover have "lo \<in> {0..x}" "hi \<in> {x..<GRID_SIZE}" using r by simp_all
  ultimately show ?L
    unfolding inRunH_def by blast
qed

lemma hasChainOfThree_iff:
  assumes "gem_type (board ! y ! x) = type" "x < GRID_SIZE" "y < GRID_SIZE"
  shows "hasChainOfThree board x y type \<longleftrightarrow> inRun board y x"
proof (cases type)
  case None
  then have "\<not> hasChainOfThree board x y type" by (simp add: hasChainOfThree_def)
  moreover have "\<not> inRun board y x" using inRun_type assms(1) None by metis
  ultimately show ?thesis by simp
next
  case (Some t)
  have ty: "gem_type (board ! y ! x) = Some t" using assms(1) Some by simp
  have "hasChainOfThree board x y (Some t) \<longleftrightarrow>
      3 \<le> 1 + length (takeWhile (\<lambda>i. gem_type (board ! i ! x) = Some t) (rev [0..<y])) +
            length (takeWhile (\<lambda>i. gem_type (board ! i ! x) = Some t) [y + 1..<GRID_SIZE]) \<or>
      3 \<le> 1 + length (takeWhile (\<lambda>i. gem_type (board ! y ! i) = Some t) (rev [0..<x])) +
            length (takeWhile (\<lambda>i. gem_type (board ! y ! i) = Some t) [x + 1..<GRID_SIZE])"
    by (simp add: hasChainOfThree_def countWhile_eq Let_def)
  also have "\<dots> \<longleftrightarrow> inRunV board y x \<or> inRunH board y x"
    unfolding line_count[OF assms(3)] line_count[OF assms(2)]
      inRunV_iff[OF ty assms(3)] inRunH_iff[OF ty assms(2)] ..
  finally show ?thesis unfolding inRun_def Some by blast
qed

lemma board_eqI:
  assumes "wf_board a" "wf_board b"
    and "\<And>y x. y < GRID_SIZE \<Longrightarrow> x < GRID_SIZE \<Longrightarrow> a ! y ! x = b ! y ! x"
  shows "a = b"
proof (rule nth_equalityI)
  show "length a = length b" using assms(1,2) by (simp add: wf_board_nth)
next
  fix y assume "y < length a"
  then have y: "y < GRID_SIZE" using assms(1) by (simp add: wf_board_nth)
  show "a ! y = b ! y"
    by (rule nth_equalityI) (use assms y in \<open>simp_all add: wf_board_nth\<close>)
qed

lemma wf_swapGems: "wf_board board \<Longrightarrow> wf_board (swapGems board sel newX newY)"
  by (simp add: swapGems_def Let_def)

lemma nth_swapGems:
  assumes "wf_board board" "y < GRID_SIZE" "x < GRID_SIZE"
  shows "swapGems board sel newX newY ! y ! x =
     (if y = newY \<and> x = newX then sel\<lparr>gem_x := newX, gem_y := newY\<rparr>
      else if y = gem_y sel \<and> x = gem_x sel
           then (board ! newY ! newX)\<lparr>gem_x := gem_x sel, gem_y := gem_y sel\<rparr>
      else board ! y ! x)"
proof -
  let ?b1 = "setCell board (gem_y sel) (gem_x sel)
      ((board ! newY ! newX)\<lparr>gem_x := gem_x sel, gem_y := gem_y sel\<rparr>)"
  have wf1: "wf_board ?b1" using assms(1) by simp
  have "swapGems board sel newX newY ! y ! x =
      (if y = newY \<and> x = newX then sel\<lparr>gem_x := newX, gem_y := newY\<rparr> else ?b1 ! y ! x)"
    unfolding swapGems_def Let_def by (rule nth_setCell_wf[OF wf1 assms(2,3)])
  also have "?b1 ! y ! x = (if y = gem_y sel \<and> x = gem_x sel
      then (board ! newY ! newX)\<lparr>gem_x := gem_x sel, gem_y := gem_y sel\<rparr> else board ! y ! x)"
    by (rule nth_setCell_wf[OF assms])
  finally show ?thesis .
qed

lemma revert_swap:
  assumes wf: "wf_board board" and ok: "selectionOk board sel"
  shows "setCell (setCell (swapGems board sel newX newY) newY newX (board ! newY ! newX))
           (gem_y sel) (gem_x sel) sel = board"
proof (rule board_eqI)
  let ?s = "swapGems board sel newX newY"
  let ?b3 = "setCell ?s newY newX (board ! newY ! newX)"
  have wfs: "wf_board ?s" using wf by (rule wf_swapGems)
  then have wf3: "wf_board ?b3" by simp
  then show "wf_board (setCell ?b3 (gem_y sel) (gem_x sel) sel)" by simp
  show "wf_board board" by (rule wf)
  fix y x assume yx: "y < GRID_SIZE" "x < GRID_SIZE"
  have "setCell ?b3 (gem_y sel) (gem_x sel) sel ! y ! x =
      (if y = gem_y sel \<and> x = gem_x sel then sel else ?b3 ! y ! x)"
    by (rule nth_setCell_wf[OF wf3 yx])
  also have "?b3 ! y ! x = (if y = newY \<and> x = newX then board ! newY ! newX else ?s ! y ! x)"
    by (rule nth_setCell_wf[OF wfs yx])
  finally show "setCell ?b3 (gem_y sel) (gem_x sel) sel ! y ! x = board ! y ! x"
    using ok nth_swapGems[OF wf yx, of sel newX newY]
    by (auto simp: selectionOk_def)
qed

lemma legalTarget_bounds:
  "legalTarget sel newX newY \<Longrightarrow>
   0 \<le> newX \<and> 0 \<le> newY \<and> nat newX < GRID_SIZE \<and> nat newY < GRID_SIZE \<and>
   (nat newX \<noteq> gem_x sel \<or> nat newY \<noteq> gem_y sel)"
  unfolding legalTarget_def Let_def by auto

lemma coherent_swapGems:
  assumes "wf_board board" "coherent board" "newX < GRID_SIZE" "newY < GRID_SIZE"
    "gem_x sel < GRID_SIZE" "gem_y sel < GRID_SIZE"
  shows "coherent (swapGems board sel newX newY)"
proof -
  have cell: "gem_x (board ! y ! x) = x \<and> gem_y (board ! y ! x) = y"
    if "y < GRID_SIZE" "x < GRID_SIZE" for y x
    using assms(2) that unfolding coherent_iff[OF assms(1)] colCoherent_def by blast
  have "colCoherent (swapGems board sel newX newY) x" if "x < GRID_SIZE" for x
    unfolding colCoherent_def
    using that cell by (auto simp: nth_swapGems[OF assms(1)])
  then show ?thesis
    using coherent_iff[OF wf_swapGems[OF assms(1)]] by blast
qed

lemma fullBoard_swapGems:
  assumes "wf_board board" "fullBoard board" "selectionOk board sel"
    "newX < GRID_SIZE" "newY < GRID_SIZE"
  shows "fullBoard (swapGems board sel newX newY)"
proof -
  have cell: "gem_type (board ! y ! x) \<noteq> None" if "y < GRID_SIZE" "x < GRID_SIZE" for y x
    using assms(2) that unfolding fullBoard_iff[OF assms(1)] by blast
  have sel: "gem_type sel \<noteq> None"
    using cell[of "gem_y sel" "gem_x sel"] assms(3) unfolding selectionOk_def by metis
  have "gem_type (swapGems board sel newX newY ! y ! x) \<noteq> None"
    if "y < GRID_SIZE" "x < GRID_SIZE" for y x
    unfolding nth_swapGems[OF assms(1) that]
    using sel cell[OF assms(5,4)] cell[OF that] by simp
  then show ?thesis
    using fullBoard_iff[OF wf_swapGems[OF assms(1)]] by blast
qed

lemma swapGems_types:
  assumes "wf_board board" "newX < GRID_SIZE" "newY < GRID_SIZE"
    "gem_x sel < GRID_SIZE" "gem_y sel < GRID_SIZE" "newX \<noteq> gem_x sel \<or> newY \<noteq> gem_y sel"
  shows "gem_type (swapGems board sel newX newY ! newY ! newX) = gem_type sel"
    and "gem_type (swapGems board sel newX newY ! gem_y sel ! gem_x sel) = gem_type (board ! newY ! newX)"
  using assms(6)
  by (auto simp: nth_swapGems[OF assms(1,3,2)] nth_swapGems[OF assms(1,5,4)])

lemma canMove_iff:
  assumes "wf_board board" "newX < GRID_SIZE" "newY < GRID_SIZE"
    "gem_x sel < GRID_SIZE" "gem_y sel < GRID_SIZE" "newX \<noteq> gem_x sel \<or> newY \<noteq> gem_y sel"
  shows "canMove (swapGems board sel newX newY) sel (board ! newY ! newX) newX newY \<longleftrightarrow>
     inRun (swapGems board sel newX newY) newY newX \<or>
     inRun (swapGems board sel newX newY) (gem_y sel) (gem_x sel)"
  unfolding canMove_def
  using hasChainOfThree_iff[OF swapGems_types(1)[OF assms] assms(2,3)]
    hasChainOfThree_iff[OF swapGems_types(2)[OF assms] assms(4,5)]
  by simp

lemma mouseup_idle:
  "gs_selectedGem st = None \<or> \<not> gs_isDragging st \<Longrightarrow> mouseup st mouseX mouseY = Some st"
  by (auto simp: mouseup_def split: option.splits)

lemma mouseup_illegal:
  "gs_selectedGem st = Some sel \<Longrightarrow> gs_isDragging st \<Longrightarrow>
   \<not> legalTarget sel (mouseX div CELL_SIZE) (mouseY div CELL_SIZE) \<Longrightarrow>
   mouseup st mouseX mouseY = Some (st\<lparr>gs_isDragging := False, gs_selectedGem := None\<rparr>)"
  by (simp add: mouseup_def Let_def)

lemma mouseup_rejected:
  assumes "gs_selectedGem st = Some sel" "gs_isDragging st"
    and "legalTarget sel (mouseX div CELL_SIZE) (mouseY div CELL_SIZE)"
    and "newX = nat (mouseX div CELL_SIZE)" "newY = nat (mouseY div CELL_SIZE)"
    and "\<not> canMove (swapGems (gs_board st) sel newX newY) sel (gs_board st ! newY ! newX) newX newY"
  shows "mouseup st mouseX mouseY =
     Some (st\<lparr>gs_board := setCell (setCell (swapGems (gs_board st) sel newX newY) newY newX
                                     (gs_board st ! newY ! newX)) (gem_y sel) (gem_x sel) sel,
              gs_isDragging := False, gs_selectedGem := None\<rparr>)"
  using assms by (simp add: mouseup_def Let_def)

lemma mouseup_accepted:
  assumes "gs_selectedGem st = Some sel" "gs_isDragging st"
    and "legalTarget sel (mouseX div CELL_SIZE) (mouseY div CELL_SIZE)"
    and "newX = nat (mouseX div CELL_SIZE)" "newY = nat (mouseY div CELL_SIZE)"
    and "canMove (swapGems (gs_board st) sel newX newY) sel (gs_board st ! newY ! newX) newX newY"
  shows "mouseup st mouseX mouseY =
     (case cascade (swapGems (gs_board st) sel newX newY) (gs_rng st) (gs_totalScore st)
             (findMatches (swapGems (gs_board st) sel newX newY)) of
        None \<Rightarrow> None
      | Some (board', rng', totalScore') \<Rightarrow>
          Some (st\<lparr>gs_board := board', gs_rng := rng', gs_totalScore := totalScore',
                   gs_isDragging := False, gs_selectedGem := None\<rparr>))"
  using assms by (simp add: mouseup_def Let_def)

lemma cascadeStep_inv:
  assumes "cascadeStep (board, rng) = (b1, r1)" "wf_board board" "coherent board"
  shows "wf_board b1 \<and> coherent b1 \<and> fullBoard b1"
proof -
  let ?b = "removeMatches board (findMatches board)"
  obtain fs where c: "collapseBoard ?b rng = (b1, r1, fs)"
    using assms(1) by (auto simp: cascadeStep_def split: prod.splits)
  have wf: "wf_board ?b" using assms(2) by (rule wf_removeMatches)
  have coh: "coherent ?b" using assms(2,3) by (rule coherent_removeMatches)
  show ?thesis
    using collapseBoard_wf[OF c wf] collapseBoard_coherent[OF c wf coh] collapseBoard_full[OF c wf]
    by simp
qed

lemma cascadeState_inv:
  assumes "wf_board board" "coherent board" "fullBoard board"
  shows "wf_board (fst (cascadeState n board rng)) \<and> coherent (fst (cascadeState n board rng)) \<and>
         fullBoard (fst (cascadeState n board rng))"
  using assms
proof (induction n arbitrary: board rng)
  case 0
  then show ?case by simp
next
  case (Suc n)
  obtain b1 r1 where st: "cascadeStep (board, rng) = (b1, r1)"
    by (cases "cascadeStep (board, rng)") auto
  have "wf_board b1 \<and> coherent b1 \<and> fullBoard b1"
    by (rule cascadeStep_inv[OF st Suc.prems(1,2)])
  then show ?case
    using Suc.IH[of b1 r1] by (simp add: cascadeState_Suc st)
qed

lemma cascade_inv:
  assumes "cascade board rng totalScore (findMatches board) = Some (b', rng', totalScore')"
    and "wf_board board" "coherent board" "fullBoard board"
  shows "wf_board b' \<and> coherent b' \<and> fullBoard b' \<and> findMatches b' = [] \<and> totalScore \<le> totalScore'"
proof -
  from cascade_Some[OF assms(1) refl] obtain n where
    n: "findMatches (fst (cascadeState n board rng)) = []"
      "b' = fst (cascadeState n board rng)"
      "totalScore' = totalScore + 100 * (\<Sum>i<n. int (matchCount i board rng))"
    by auto
  have "0 \<le> (\<Sum>i<n. int (matchCount i board rng))"
    by (rule sum_nonneg) simp
  then have "totalScore \<le> totalScore'" unfolding n(3) by simp
  then show ?thesis
    using cascadeState_inv[OF assms(2,3,4), of n rng] n(1,2) by simp
qed

lemma cascade_score_mono:
  assumes "cascade board rng totalScore (findMatches board) = Some (b', rng', totalScore')"
  shows "totalScore \<le> totalScore'"
proof -
  from cascade_Some[OF assms(1) refl] obtain n where
    n: "totalScore' = totalScore + 100 * (\<Sum>i<n. int (matchCount i board rng))"
    by auto
  have "0 \<le> (\<Sum>i<n. int (matchCount i board rng))"
    by (rule sum_nonneg) simp
  then show ?thesis unfolding n by simp
qed

lemma mouseup_score_mono:
  assumes "mouseup st mouseX mouseY = Some st'"
  shows "gs_totalScore st \<le> gs_totalScore st'"
proof (cases "gs_selectedGem st")
  case None
  then show ?thesis using assms by (simp add: mouseup_idle)
next
  case (Some sel)
  show ?thesis
  proof (cases "gs_isDragging st")
    case False
    then show ?thesis using assms by (simp add: mouseup_idle)
  next
    case drag: True
    let ?newX = "nat (mouseX div CELL_SIZE)" and ?newY = "nat (mouseY div CELL_SIZE)"
    show ?thesis
    proof (cases "legalTarget sel (mouseX div CELL_SIZE) (mouseY div CELL_SIZE)")
      case False
      then show ?thesis using assms mouseup_illegal[OF Some drag False] by auto
    next
      case legal: True
      show ?thesis
      proof (cases "canMove (swapGems (gs_board st) sel ?newX ?newY) sel
                      (gs_board st ! ?newY ! ?newX) ?newX ?newY")
        case False
        then show ?thesis
          using assms mouseup_rejected[OF Some drag legal refl refl False] by auto
      next
        case True
        from assms mouseup_accepted[OF Some drag legal refl refl True]
        obtain b' r' s' where
          c: "cascade (swapGems (gs_board st) sel ?newX ?newY) (gs_rng st) (gs_totalScore st)
                (findMatches (swapGems (gs_board st) sel ?newX ?newY)) = Some (b', r', s')"
          and st': "st' = st\<lparr>gs_board := b', gs_rng := r', gs_totalScore := s',
                   gs_isDragging := False, gs_selectedGem := None\<rparr>"
          by (auto split: option.splits)
        show ?thesis using cascade_score_mono[OF c] st' by simp
      qed
    qed
  qed
qed

lemma mouseup_inv:
  assumes inv: "sessionInv st" and up: "mouseup st mouseX mouseY = Some st'"
  shows "sessionInv st'"
proof (cases "gs_selectedGem st")
  case None
  then show ?thesis using inv up by (simp add: mouseup_idle)
next
  case (Some sel)
  have wf: "wf_board (gs_board st)" and coh: "coherent (gs_board st)"
    and full: "fullBoard (gs_board st)" and ok: "selectionOk (gs_board st) sel"
    using inv Some by (simp_all add: sessionInv_def)
  show ?thesis
  proof (cases "gs_isDragging st")
    case False
    then show ?thesis using inv up by (simp add: mouseup_idle)
  next
    case drag: True
    let ?newX = "nat (mouseX div CELL_SIZE)" and ?newY = "nat (mouseY div CELL_SIZE)"
    show ?thesis
    proof (cases "legalTarget sel (mouseX div CELL_SIZE) (mouseY div CELL_SIZE)")
      case False
      then show ?thesis
        using up mouseup_illegal[OF Some drag False] wf coh full by (auto simp: sessionInv_def)
    next
      case legal: True
      then have b: "?newX < GRID_SIZE" "?newY < GRID_SIZE"
        using legalTarget_bounds by blast+
      show ?thesis
      proof (cases "canMove (swapGems (gs_board st) sel ?newX ?newY) sel
                      (gs_board st ! ?newY ! ?newX) ?newX ?newY")
        case False
        have "st' = st\<lparr>gs_board := gs_board st, gs_isDragging := False, gs_selectedGem := None\<rparr>"
          using up mouseup_rejected[OF Some drag legal refl refl False]
          unfolding revert_swap[OF wf ok] by simp
        then show ?thesis using wf coh full by (simp add: sessionInv_def)
      next
        case True
        let ?s = "swapGems (gs_board st) sel ?newX ?newY"
        from up mouseup_accepted[OF Some drag legal refl refl True]
        obtain b' r' s' where
          c: "cascade ?s (gs_rng st) (gs_totalScore st) (findMatches ?s) = Some (b', r', s')"
          and st': "st' = st\<lparr>gs_board := b', gs_rng := r', gs_totalScore := s',
                   gs_isDragging := False, gs_selectedGem := None\<rparr>"
          by (auto split: option.splits)
        have "wf_board ?s" using wf by (rule wf_swapGems)
        moreover have "coherent ?s"
          using coherent_swapGems[OF wf coh b] ok by (simp add: selectionOk_def)
        moreover have "fullBoard ?s"
          by (rule fullBoard_swapGems[OF wf full ok b])
        ultimately have "wf_board b' \<and> coherent b' \<and> fullBoard b'"
          using cascade_inv[OF c] by blast
        then show ?thesis unfolding st' by (simp add: sessionInv_def)
      qed
    qed
  qed
qed

lemma mousedown_inv:
  assumes inv: "sessionInv st"
  shows "sessionInv (mousedown st mouseX mouseY)"
proof -
  have wf: "wf_board (gs_board st)" and coh: "coherent (gs_board st)"
    and full: "fullBoard (gs_board st)"
    using inv by (simp_all add: sessionInv_def)
  let ?x = "mouseX div CELL_SIZE" and ?y = "mouseY div CELL_SIZE"
  show ?thesis
  proof (cases "0 \<le> ?y \<and> nat ?y < length (gs_board st) \<and> 0 \<le> ?x \<and> nat ?x < length (gs_board st ! nat ?y)")
    case False
    have "mousedown st mouseX mouseY = st"
      by (simp only: mousedown_def Let_def False if_False)
    then show ?thesis using inv by simp
  next
    case True
    then have yb: "nat ?y < GRID_SIZE"
      using wf by (simp add: wf_board_nth)
    with True have b: "nat ?y < GRID_SIZE" "nat ?x < GRID_SIZE"
      using wf_boardD[OF wf yb] by simp_all
    have cell: "gem_x (gs_board st ! nat ?y ! nat ?x) = nat ?x \<and> gem_y (gs_board st ! nat ?y ! nat ?x) = nat ?y"
      using coh b unfolding coherent_iff[OF wf] colCoherent_def by blast
    have "selectionOk (gs_board st) (gs_board st ! nat ?y ! nat ?x)"
      unfolding selectionOk_def using cell b by simp
    then show ?thesis
      using True wf coh full by (simp add: mousedown_def Let_def sessionInv_def)
  qed
qed

lemma initBoard_sessionInv:
  assumes "initBoard rng0 = Some (board, rng1)"
  shows "sessionInv \<lparr>gs_board = board, gs_totalScore = 0, gs_selectedGem = None,
                     gs_isDragging = False, gs_offsetX = 0, gs_offsetY = 0, gs_rng = rng1\<rparr>"
  using initBoard_inv[OF assms] boardInv_wf boardInv_coherent boardInv_full
  by (simp add: sessionInv_def)

lemma reachable_inv: "reachable st \<Longrightarrow> sessionInv st"
  by (induction rule: reachable.induct)
     (simp_all add: initBoard_sessionInv mousedown_inv mouseup_inv)

lemma legalTarget_iff:
  "legalTarget sel newX newY \<longleftrightarrow>
     0 \<le> newX \<and> newX < int GRID_SIZE \<and> 0 \<le> newY \<and> newY < int GRID_SIZE \<and>
     \<bar>newX - int (gem_x sel)\<bar> + \<bar>newY - int (gem_y sel)\<bar> = 1"
  unfolding legalTarget_def Let_def by auto

lemma hrun_inRun:
  assumes "hrun board y lo hi" "x \<in> {lo..hi}"
  shows "inRun board y x"
proof -
  have "hi < GRID_SIZE" using assms(1) unfolding hrun_def by blast
  then have "lo \<in> {0..x}" "hi \<in> {x..<GRID_SIZE}" using assms(2) by simp_all
  then show ?thesis unfolding inRun_def inRunH_def using assms(1) by blast
qed

lemma vrun_inRun:
  assumes "vrun board x lo hi" "y \<in> {lo..hi}"
  shows "inRun board y x"
proof -
  have "hi < GRID_SIZE" using assms(1) unfolding vrun_def by blast
  then have "lo \<in> {0..y}" "hi \<in> {y..<GRID_SIZE}" using assms(2) by simp_all
  then show ?thesis unfolding inRun_def inRunV_def using assms(1) by blast
qed

lemma no_inRun_no_runs:
  assumes "\<forall>y<GRID_SIZE. \<forall>x<GRID_SIZE. \<not> inRun board y x"
  shows "(\<forall>y<GRID_SIZE. \<forall>lo hi. \<not> hrun board y lo hi) \<and> (\<forall>x<GRID_SIZE. \<forall>lo hi. \<not> vrun board x lo hi)"
proof (intro conjI allI impI notI)
  fix y lo hi assume y: "y < GRID_SIZE" and r: "hrun board y lo hi"
  then have lo: "lo < GRID_SIZE" "lo \<in> {lo..hi}" unfolding hrun_def by auto
  have "inRun board y lo" by (rule hrun_inRun[OF r lo(2)])
  moreover have "\<not> inRun board y lo" using assms y lo(1) by simp
  ultimately show False by simp
next
  fix x lo hi assume x: "x < GRID_SIZE" and r: "vrun board x lo hi"
  then have lo: "lo < GRID_SIZE" "lo \<in> {lo..hi}" unfolding vrun_def by auto
  have "inRun board lo x" by (rule vrun_inRun[OF r lo(2)])
  moreover have "\<not> inRun board lo x" using assms x lo(1) by simp
  ultimately show False by simp
qed

lemma findMatches_positions:
  "findMatches board =
     map (\<lambda>(y, x). board ! y ! x)
       (filter (\<lambda>(y, x). inRun board y x) (List.product [0..<GRID_SIZE] [0..<GRID_SIZE]))"
  unfolding findMatches_inRun
  by (simp add: List.product_concat_map filter_concat filter_map map_concat comp_def)

lemma distinct_findMatches:
  assumes wf: "wf_board board" and coh: "coherent board"
  shows "distinct (findMatches board)"
  unfolding findMatches_positions
proof (subst distinct_map, intro conjI)
  show "distinct (filter (\<lambda>(y, x). inRun board y x) (List.product [0..<GRID_SIZE] [0..<GRID_SIZE]))"
    by (intro distinct_filter distinct_product) simp_all
next
  have cell: "gem_x (board ! y ! x) = x \<and> gem_y (board ! y ! x) = y"
    if "y < GRID_SIZE" "x < GRID_SIZE" for y x
    using coh that unfolding coherent_iff[OF wf] colCoherent_def by blast
  show "inj_on (\<lambda>(y, x). board ! y ! x)
     (set (filter (\<lambda>(y, x). inRun board y x) (List.product [0..<GRID_SIZE] [0..<GRID_SIZE])))"
  proof (rule inj_onI, clarsimp)
    fix y x y' x'
    assume a: "y < GRID_SIZE" "x < GRID_SIZE" "y' < GRID_SIZE" "x' < GRID_SIZE"
      "board ! y ! x = board ! y' ! x'"
    from cell[OF a(1,2)] cell[OF a(3,4)] a(5) show "y = y' \<and> x = x'" by metis
  qed
qed

lemma findMatches_types: "g \<in> set (findMatches board) \<Longrightarrow> gem_type g \<noteq> None"
  unfolding set_findMatches using inRun_type by blast

lemma cascadeState_fixed:
  "cascadeStep (board, rng) = (board, rng) \<Longrightarrow> cascadeState n board rng = (board, rng)"
  by (induction n) (simp_all add: cascadeState_Suc)

lemma cascade_fixed_diverges:
  assumes "cascadeStep (board, rng) = (board, rng)" "findMatches board \<noteq> []"
  shows "cascade board rng totalScore (findMatches board) = None"
proof (rule ccontr)
  assume "cascade board rng totalScore (findMatches board) \<noteq> None"
  then obtain r where "cascade board rng totalScore (findMatches board) = Some r" by blast
  from cascade_Some[OF this refl] obtain n where "findMatches (fst (cascadeState n board rng)) = []"
    by blast
  then show False using assms by (simp add: cascadeState_fixed)
qed

lemma cascade_terminates_iff:
  "cascade board rng totalScore (findMatches board) \<noteq> None \<longleftrightarrow>
     (\<exists>n. findMatches (fst (cascadeState n board rng)) = [])"
proof
  assume "cascade board rng totalScore (findMatches board) \<noteq> None"
  then obtain r where "cascade board rng totalScore (findMatches board) = Some r" by blast
  from cascade_Some[OF this refl] show "\<exists>n. findMatches (fst (cascadeState n board rng)) = []"
    by blast
next
  assume "\<exists>n. findMatches (fst (cascadeState n board rng)) = []"
  then obtain n where n: "findMatches (fst (cascadeState n board rng)) = []" ..
  define m where "m = (LEAST n. findMatches (fst (cascadeState n board rng)) = [])"
  have "findMatches (fst (cascadeState m board rng)) = []"
    unfolding m_def using n by (rule LeastI)
  moreover have "\<forall>i<m. findMatches (fst (cascadeState i board rng)) \<noteq> []"
    unfolding m_def using not_less_Least by blast
  ultimately show "cascade board rng totalScore (findMatches board) \<noteq> None"
    using cascade_terminates by simp
qed

lemma initRow_unfold:
  "initRow rng board y x row =
     (if x < GRID_SIZE then
        (case getSafeRandomGem rng board x y row of
           None \<Rightarrow> None
         | Some (t, rng') \<Rightarrow> initRow rng' board y (Suc x) (row @ [demoGem x y t]))
      else Some (row, rng))"
  by (subst initRow.simps) (simp add: demoGem_def split: option.split)

text \<open>
  C8 (amended). At every cell at most two gem types are refused by \<open>getSafeRandomGem\<close>, so at
  least three of the five are acceptable. The loop returns exactly when the stream holds
  an acceptable draw, and then it returns the first acceptable draw and the stream after
  it; on a stream of refused draws only it never returns.
\<close>

theorem getSafeRandomGem_returns_first_acceptable:
  "3 \<le> card {t. \<not> rejected board x y currentRow t} \<and>
   (getSafeRandomGem rng board x y currentRow \<noteq> None \<longleftrightarrow>
      (\<exists>n. \<not> rejected board x y currentRow (rng !! n))) \<and>
   (\<forall>n. \<not> rejected board x y currentRow (rng !! n) \<and>
        (\<forall>i<n. rejected board x y currentRow (rng !! i)) \<longrightarrow>
        getSafeRandomGem rng board x y currentRow = Some (rng !! n, sdrop (Suc n) rng))"
proof (intro conjI allI impI)
  show "3 \<le> card {t. \<not> rejected board x y currentRow t}" by (rule three_ok)
next
  show "getSafeRandomGem rng board x y currentRow \<noteq> None \<longleftrightarrow>
      (\<exists>n. \<not> rejected board x y currentRow (rng !! n))"
  proof
    assume "getSafeRandomGem rng board x y currentRow \<noteq> None"
    then obtain r where "getSafeRandomGem rng board x y currentRow = Some r" by blast
    from getSafe_Some_aux[OF this] show "\<exists>n. \<not> rejected board x y currentRow (rng !! n)" by blast
  next
    assume "\<exists>n. \<not> rejected board x y currentRow (rng !! n)"
    then obtain n where n: "\<not> rejected board x y currentRow (rng !! n)" ..
    define m where "m = (LEAST n. \<not> rejected board x y currentRow (rng !! n))"
    have "\<not> rejected board x y currentRow (rng !! m)"
      unfolding m_def using n by (rule LeastI)
    moreover have "\<forall>i<m. rejected board x y currentRow (rng !! i)"
      unfolding m_def using not_less_Least by blast
    ultimately show "getSafeRandomGem rng board x y currentRow \<noteq> None"
      using getSafe_returns by simp
  qed
next
  fix n
  assume "\<not> rejected board x y currentRow (rng !! n) \<and> (\<forall>i<n. rejected board x y currentRow (rng !! i))"
  then show "getSafeRandomGem rng board x y currentRow = Some (rng !! n, sdrop (Suc n) rng)"
    using getSafe_returns by blast
qed

theorem getSafeRandomGem_returns_witness:
  "getSafeRandomGem ([G0, G0, G1] @- sconst G0) [] 2 0 [demoGem 0 0 G0, demoGem 1 0 G0]
     = Some (G1, sconst G0)"
proof -
  let ?row = "[demoGem 0 0 G0, demoGem 1 0 G0]"
  let ?rng = "[G0, G0, G1] @- sconst G0"
  have a: "\<not> rejected [] 2 0 ?row (?rng !! 2)"
    by (simp add: rejected_def typeAt_def demoGem_def numeral_2_eq_2)
  have b: "\<forall>i<2. rejected [] 2 0 ?row (?rng !! i)"
    by (simp add: rejected_def typeAt_def demoGem_def less_Suc_eq numeral_2_eq_2)
  have "getSafeRandomGem ?rng [] 2 0 ?row = Some (?rng !! 2, sdrop (Suc 2) ?rng)"
    using getSafeRandomGem_returns_first_acceptable[of "[]" 2 0 ?row ?rng] a b by blast
  then show ?thesis by (simp add: numeral_3_eq_3 numeral_2_eq_2)
qed

text \<open>
  C8, as stated, fails: under the stream that always draws type 0 the loop at cell (2, 0)
  of the first row, right of two gems of type 0, never returns, and neither does
  \<open>initBoard\<close>.
\<close>

theorem getSafeRandomGem_never_returns:
  "getSafeRandomGem (sconst G0) [] 2 0 [demoGem 0 0 G0, demoGem 1 0 G0] = None \<and>
   initBoard (sconst G0) = None"
proof
  have rej: "rejected [] 2 0 [demoGem 0 0 G0, demoGem 1 0 G0] G0"
    by (simp add: rejected_def typeAt_def demoGem_def)
  then show none: "getSafeRandomGem (sconst G0) [] 2 0 [demoGem 0 0 G0, demoGem 1 0 G0] = None"
    by (rule getSafe_None_const)
  have g0: "getSafeRandomGem (sconst G0) [] 0 0 [] = Some (G0, sconst G0)"
    by (subst getSafe_unfold) (simp add: rejected_def)
  have g1: "getSafeRandomGem (sconst G0) [] 1 0 [demoGem 0 0 G0] = Some (G0, sconst G0)"
    by (subst getSafe_unfold) (simp add: rejected_def)
  have "initRow (sconst G0) [] 0 2 ([demoGem 0 0 G0] @ [demoGem 1 0 G0]) = None"
    by (subst initRow_unfold) (simp only: none GRID_SIZE_def append.simps option.case, simp)
  then have "initRow (sconst G0) [] 0 (Suc 1) ([demoGem 0 0 G0] @ [demoGem 1 0 G0]) = None"
    by (simp only: Suc_1)
  then have "initRow (sconst G0) [] 0 1 ([] @ [demoGem 0 0 G0]) = None"
    by (subst initRow_unfold) (simp only: g1 append.simps option.case prod.case GRID_SIZE_def, simp)
  then have "initRow (sconst G0) [] 0 (Suc 0) ([] @ [demoGem 0 0 G0]) = None"
    by (simp only: One_nat_def)
  then have "initRow (sconst G0) [] 0 0 [] = None"
    by (subst initRow_unfold) (simp only: g0 option.case prod.case GRID_SIZE_def, simp)
  then show "initBoard (sconst G0) = None"
    unfolding initBoard_def by (subst initRows.simps) (simp add: GRID_SIZE_def)
qed

lemma initRows_unfold:
  "initRows rng board y =
     (if y < GRID_SIZE then
        (case initRow rng board y 0 [] of
           None \<Rightarrow> None
         | Some (row, rng') \<Rightarrow> initRows rng' (board @ [row]) (Suc y))
      else Some (board, rng))"
  by (subst initRows.simps) (simp split: option.split)

lemma demo_init: "initBoard (concat demoRows @- rest) = Some (demoBoard, rest)"
  unfolding initBoard_def demoBoard_def boardOf_def rowOf_def demoRows_def
  by (simp add: initRows_unfold initRow_unfold getSafe_unfold rejected_def typeAt_def
      GRID_SIZE_def demoGem_def upt_rec numeral_nat)

lemmas eval_board = demoBoard_def boardOf_def rowOf_def demoRows_def demoGem_def upt_rec numeral_nat
  GRID_SIZE_def CELL_SIZE_def setCell_def

lemma demo_down:
  "mousedown (demoState demoBoard r) 350 50 =
     (demoState demoBoard r)\<lparr>gs_selectedGem := Some (demoGem 3 0 G0), gs_isDragging := True,
        gs_offsetX := 50, gs_offsetY := 50\<rparr>"
  by (simp add: mousedown_def demoState_def Let_def eval_board)

lemma demo_swapped_types:
  "map (map gem_type) demoSwapped =
     map (map Some)
       ([G0, G0, G0, G1, G2, G3, G4, G1] # tl demoRows)"
  by (simp add: demoSwapped_def swapGems_def Let_def eval_board)

lemma demo_matches:
  "findMatches demoSwapped = [demoGem 0 0 G0, demoGem 1 0 G0, demoGem 2 0 G0]"
  by (simp add: demoSwapped_def swapGems_def Let_def eval_board
      findMatches_def matchedCells_def collectRows.simps collectRow.simps
      scanRows.simps scanRow.simps extendRight.simps
      scanColumns.simps scanColumn.simps extendDown.simps)

lemmas eval_find = findMatches_def matchedCells_def collectRows.simps collectRow.simps
  scanRows.simps scanRow.simps extendRight.simps scanColumns.simps scanColumn.simps extendDown.simps

lemmas eval_collapse = collapseBoard_def collapseColumns.simps compactColumn.simps
  refillColumn.simps getRandomGemType_def

lemma demo_step:
  "cascadeStep (demoSwapped, t0 ## t1 ## t2 ## r) = (demoRefilled t0 t1 t2, r)"
  by (simp add: cascadeStep_def demo_matches demoRefilled_def freshGem_def)
     (simp add: demoSwapped_def swapGems_def Let_def eval_board eval_collapse)

lemma demo_matches_again:
  "findMatches (demoRefilled G0 G0 G0) = [freshGem 0 1 0 G0, freshGem 1 1 0 G0, freshGem 2 1 0 G0]"
  by (simp add: demoRefilled_def freshGem_def demoSwapped_def swapGems_def Let_def eval_board eval_find)

lemma demo_step_again:
  "cascadeStep (demoRefilled G0 G0 G0, t0 ## t1 ## t2 ## r) = (demoRefilled t0 t1 t2, r)"
  by (simp add: cascadeStep_def demo_matches_again)
     (simp add: demoRefilled_def freshGem_def demoSwapped_def swapGems_def Let_def eval_board eval_collapse)

lemma demo_no_matches: "findMatches (demoRefilled G1 G2 G3) = []"
  by (simp add: demoRefilled_def freshGem_def demoSwapped_def swapGems_def Let_def eval_board eval_find)

lemma demo_reachable: "reachable (demoDown r)"
  unfolding demoDown_def demoState_def
  by (intro reachable.down reachable.start) (rule demo_init)

lemma demo_inv: "sessionInv (demoDown r)"
  by (rule reachable_inv[OF demo_reachable])

lemma demoDown_fields:
  "gs_board (demoDown r) = demoBoard" "gs_selectedGem (demoDown r) = Some (demoGem 3 0 G0)"
  "gs_isDragging (demoDown r)" "gs_totalScore (demoDown r) = 0" "gs_rng (demoDown r) = r"
  unfolding demoDown_def demo_down by (simp_all add: demoState_def)

lemma demo_wf: "wf_board demoBoard"
  using demo_inv[of "sconst G0"] by (simp add: sessionInv_def demoDown_fields)

lemma demo_coherent: "coherent demoBoard"
  using demo_inv[of "sconst G0"] by (simp add: sessionInv_def demoDown_fields)

lemma demo_selectionOk: "selectionOk demoBoard (demoGem 3 0 G0)"
  using demo_inv[of "sconst G0"] by (simp add: sessionInv_def demoDown_fields)

lemma demo_legal: "legalTarget (demoGem 3 0 G0) (250 div CELL_SIZE) (50 div CELL_SIZE)"
  by (simp add: legalTarget_def demoGem_def CELL_SIZE_def GRID_SIZE_def)

lemma demo_target: "nat (250 div CELL_SIZE) = 2" "nat (50 div CELL_SIZE) = 0"
  by (simp_all add: CELL_SIZE_def)

lemma demo_canMove: "canMove demoSwapped (demoGem 3 0 G0) (demoBoard ! 0 ! 2) 2 0"
  by (simp add: canMove_def hasChainOfThree_def Let_def demoSwapped_def swapGems_def eval_board)

lemma demo_swapped_wf: "wf_board demoSwapped"
  unfolding demoSwapped_def by (rule wf_swapGems[OF demo_wf])

lemma demo_swapped_coherent: "coherent demoSwapped"
  unfolding demoSwapped_def
  by (rule coherent_swapGems[OF demo_wf demo_coherent]) (simp_all add: GRID_SIZE_def demoGem_def)

lemma demo_cascade:
  "cascade demoSwapped demoRest s (findMatches demoSwapped) =
     Some (demoRefilled G1 G2 G3, sconst G0, s + 300)"
  by (subst cascade_unfold, simp add: demo_matches demoRest_def demo_step,
      subst cascade_unfold, simp add: demo_no_matches)

lemma sconst_unfold3: "sconst t = t ## t ## t ## sconst t"
  by (metis id_apply siterate.code)

lemma demo_fixed: "cascadeStep (demoRefilled G0 G0 G0, sconst G0) = (demoRefilled G0 G0 G0, sconst G0)"
  using demo_step_again[of G0 G0 G0 "sconst G0"]
  unfolding sconst_unfold3[of G0, symmetric] .

lemma demo_diverges: "cascade demoSwapped (sconst G0) s (findMatches demoSwapped) = None"
proof -
  have st: "cascadeStep (demoSwapped, sconst G0) = (demoRefilled G0 G0 G0, sconst G0)"
    using demo_step[of G0 G0 G0 "sconst G0"]
    unfolding sconst_unfold3[of G0, symmetric] .
  have "cascade (demoRefilled G0 G0 G0) (sconst G0) (s + 300) (findMatches (demoRefilled G0 G0 G0)) = None"
    by (rule cascade_fixed_diverges[OF demo_fixed]) (simp add: demo_matches_again)
  then show ?thesis
    by (subst cascade_unfold) (simp add: demo_matches st)
qed

lemma demo_mouseup:
  "mouseup (demoDown r) 250 50 =
     (case cascade demoSwapped r 0 (findMatches demoSwapped) of
        None \<Rightarrow> None
      | Some (board', rng', totalScore') \<Rightarrow>
          Some ((demoDown r)\<lparr>gs_board := board', gs_rng := rng', gs_totalScore := totalScore',
                   gs_isDragging := False, gs_selectedGem := None\<rparr>))"
  using mouseup_accepted[of "demoDown r" "demoGem 3 0 G0" 250 50 2 0]
  by (simp add: demoDown_fields demo_legal demo_target demo_canMove[unfolded demoSwapped_def]
      demoSwapped_def)

text \<open>
  C1. Whenever \<open>initBoard\<close> returns, under any random stream, the board it built is 8 by 8
  and holds no run of three or more equal gems in any row or column, and \<open>findMatches\<close>
  on it returns the empty list.
\<close>

theorem initBoard_has_no_matches:
  assumes "initBoard rng = Some (board, rng')"
  shows "wf_board board \<and>
     (\<forall>y<GRID_SIZE. \<forall>lo hi. \<not> hrun board y lo hi) \<and>
     (\<forall>x<GRID_SIZE. \<forall>lo hi. \<not> vrun board x lo hi) \<and>
     findMatches board = []"
proof -
  from initBoard_inv[OF assms] have len: "length board = GRID_SIZE" and inv: "boardInv board"
    by simp_all
  have none: "\<forall>y<GRID_SIZE. \<forall>x<GRID_SIZE. \<not> inRun board y x"
    using boardInv_not_inRun[OF len inv] by blast
  show ?thesis
    using boardInv_wf[OF len inv] no_inRun_no_runs[OF none] none
    by (simp add: findMatches_Nil_iff)
qed

theorem initBoard_has_no_matches_witness:
  "initBoard (concat demoRows @- sconst G0) = Some (demoBoard, sconst G0) \<and>
   wf_board demoBoard \<and> findMatches demoBoard = []"
  using initBoard_has_no_matches[OF demo_init[of "sconst G0"]] demo_init[of "sconst G0"]
  by simp

text \<open>
  C2. When the handler holds the gem stored at an in-bounds cell and the pointer is released on
  an in-bounds cell at Manhattan distance 1, the swap is kept exactly when, on the board after
  the swap, one of the two swapped cells lies in a horizontal or vertical run of three or
  more equal gems: \<open>canMove\<close> is that condition, the handler then runs the cascade from
  the swapped board, and otherwise it restores the board. Matches elsewhere play no part.
\<close>

theorem swap_kept_iff_run_through_swapped_cell:
  assumes "wf_board (gs_board st)" and "gs_selectedGem st = Some sel" and "gs_isDragging st"
    and "selectionOk (gs_board st) sel"
    and "legalTarget sel (mouseX div CELL_SIZE) (mouseY div CELL_SIZE)"
    and "newX = nat (mouseX div CELL_SIZE)" and "newY = nat (mouseY div CELL_SIZE)"
    and "swapped = swapGems (gs_board st) sel newX newY"
  shows "(canMove swapped sel (gs_board st ! newY ! newX) newX newY \<longleftrightarrow>
            inRun swapped newY newX \<or> inRun swapped (gem_y sel) (gem_x sel)) \<and>
         mouseup st mouseX mouseY =
           (if inRun swapped newY newX \<or> inRun swapped (gem_y sel) (gem_x sel)
            then (case cascade swapped (gs_rng st) (gs_totalScore st) (findMatches swapped) of
                    None \<Rightarrow> None
                  | Some (board', rng', totalScore') \<Rightarrow>
                      Some (st\<lparr>gs_board := board', gs_rng := rng', gs_totalScore := totalScore',
                               gs_isDragging := False, gs_selectedGem := None\<rparr>))
            else Some (st\<lparr>gs_isDragging := False, gs_selectedGem := None\<rparr>))"
proof -
  have b: "newX < GRID_SIZE" "newY < GRID_SIZE" "newX \<noteq> gem_x sel \<or> newY \<noteq> gem_y sel"
    using legalTarget_bounds[OF assms(5)] assms(6,7) by simp_all
  have s: "gem_x sel < GRID_SIZE" "gem_y sel < GRID_SIZE"
    using assms(4) by (simp_all add: selectionOk_def)
  have iff: "canMove swapped sel (gs_board st ! newY ! newX) newX newY \<longleftrightarrow>
      inRun swapped newY newX \<or> inRun swapped (gem_y sel) (gem_x sel)"
    unfolding assms(8) by (rule canMove_iff[OF assms(1) b(1,2) s b(3)])
  show ?thesis
  proof (cases "canMove swapped sel (gs_board st ! newY ! newX) newX newY")
    case True
    then show ?thesis
      using iff mouseup_accepted[OF assms(2,3,5,6,7)] unfolding assms(8) by simp
  next
    case False
    have "mouseup st mouseX mouseY =
        Some (st\<lparr>gs_board := gs_board st, gs_isDragging := False, gs_selectedGem := None\<rparr>)"
      using mouseup_rejected[OF assms(2,3,5,6,7)] False
      unfolding assms(8) revert_swap[OF assms(1,4)] by simp
    then show ?thesis using iff False by simp
  qed
qed

theorem swap_kept_iff_run_witness:
  "wf_board demoBoard \<and> selectionOk demoBoard (demoGem 3 0 G0) \<and>
   legalTarget (demoGem 3 0 G0) (250 div CELL_SIZE) (50 div CELL_SIZE) \<and>
   canMove demoSwapped (demoGem 3 0 G0) (demoBoard ! 0 ! 2) 2 0 \<and>
   (inRun demoSwapped 0 2 \<or> inRun demoSwapped 0 3) \<and>
   mouseup (demoDown demoRest) 250 50 =
     Some ((demoDown demoRest)\<lparr>gs_board := demoRefilled G1 G2 G3, gs_rng := sconst G0,
        gs_totalScore := 300, gs_isDragging := False, gs_selectedGem := None\<rparr>)"
proof -
  have x: "gem_x (demoGem 3 0 G0) = 3" "gem_y (demoGem 3 0 G0) = 0"
    by (simp_all add: demoGem_def)
  from swap_kept_iff_run_through_swapped_cell[of "demoDown demoRest" "demoGem 3 0 G0" 250 50 2 0 demoSwapped]
  have "(canMove demoSwapped (demoGem 3 0 G0) (demoBoard ! 0 ! 2) 2 0 \<longleftrightarrow>
            inRun demoSwapped 0 2 \<or> inRun demoSwapped 0 3) \<and>
         mouseup (demoDown demoRest) 250 50 =
           (if inRun demoSwapped 0 2 \<or> inRun demoSwapped 0 3
            then (case cascade demoSwapped demoRest 0 (findMatches demoSwapped) of
                    None \<Rightarrow> None
                  | Some (board', rng', totalScore') \<Rightarrow>
                      Some ((demoDown demoRest)\<lparr>gs_board := board', gs_rng := rng',
                               gs_totalScore := totalScore',
                               gs_isDragging := False, gs_selectedGem := None\<rparr>))
            else Some ((demoDown demoRest)\<lparr>gs_isDragging := False, gs_selectedGem := None\<rparr>))"
    by (simp add: demoDown_fields demo_wf demo_selectionOk demo_legal demo_target demoSwapped_def x)
  then show ?thesis
    using demo_canMove demo_wf demo_selectionOk demo_legal by (simp add: demo_cascade)
qed

text \<open>
  C3. A rejected request changes neither the board nor the score. When the released cell is
  out of bounds or not at Manhattan distance 1 from the selected gem, the handler only clears
  the selection. When the cell is adjacent but neither swapped cell lies in a run of three
  or more after the swap, the two assignments of the revert restore the board exactly.
\<close>

theorem rejected_swap_changes_nothing:
  assumes "gs_selectedGem st = Some sel" and "gs_isDragging st"
    and "newX = mouseX div CELL_SIZE" and "newY = mouseY div CELL_SIZE"
  shows "(newX < 0 \<or> int GRID_SIZE \<le> newX \<or> newY < 0 \<or> int GRID_SIZE \<le> newY \<or>
          \<bar>newX - int (gem_x sel)\<bar> + \<bar>newY - int (gem_y sel)\<bar> \<noteq> 1 \<longrightarrow>
            mouseup st mouseX mouseY = Some (st\<lparr>gs_isDragging := False, gs_selectedGem := None\<rparr>)) \<and>
         (wf_board (gs_board st) \<and> selectionOk (gs_board st) sel \<and> legalTarget sel newX newY \<and>
          \<not> inRun (swapGems (gs_board st) sel (nat newX) (nat newY)) (nat newY) (nat newX) \<and>
          \<not> inRun (swapGems (gs_board st) sel (nat newX) (nat newY)) (gem_y sel) (gem_x sel) \<longrightarrow>
            mouseup st mouseX mouseY = Some (st\<lparr>gs_isDragging := False, gs_selectedGem := None\<rparr>))"
proof (intro conjI impI)
  assume "newX < 0 \<or> int GRID_SIZE \<le> newX \<or> newY < 0 \<or> int GRID_SIZE \<le> newY \<or>
          \<bar>newX - int (gem_x sel)\<bar> + \<bar>newY - int (gem_y sel)\<bar> \<noteq> 1"
  then have "\<not> legalTarget sel (mouseX div CELL_SIZE) (mouseY div CELL_SIZE)"
    unfolding legalTarget_iff assms(3,4)[symmetric] by linarith
  then show "mouseup st mouseX mouseY = Some (st\<lparr>gs_isDragging := False, gs_selectedGem := None\<rparr>)"
    by (rule mouseup_illegal[OF assms(1,2)])
next
  let ?s = "swapGems (gs_board st) sel (nat newX) (nat newY)"
  assume a: "wf_board (gs_board st) \<and> selectionOk (gs_board st) sel \<and> legalTarget sel newX newY \<and>
          \<not> inRun ?s (nat newY) (nat newX) \<and> \<not> inRun ?s (gem_y sel) (gem_x sel)"
  then have wf: "wf_board (gs_board st)" and ok: "selectionOk (gs_board st) sel"
    and legal: "legalTarget sel (mouseX div CELL_SIZE) (mouseY div CELL_SIZE)"
    unfolding assms(3,4) by simp_all
  have b: "nat newX < GRID_SIZE" "nat newY < GRID_SIZE"
      "nat newX \<noteq> gem_x sel \<or> nat newY \<noteq> gem_y sel"
    using legalTarget_bounds[OF legal] unfolding assms(3,4) by simp_all
  have s: "gem_x sel < GRID_SIZE" "gem_y sel < GRID_SIZE"
    using ok by (simp_all add: selectionOk_def)
  have no: "\<not> canMove ?s sel (gs_board st ! nat newY ! nat newX) (nat newX) (nat newY)"
    unfolding canMove_iff[OF wf b(1,2) s b(3)] using a by simp
  have "mouseup st mouseX mouseY =
      Some (st\<lparr>gs_board := gs_board st, gs_isDragging := False, gs_selectedGem := None\<rparr>)"
    using mouseup_rejected[OF assms(1,2) legal _ _ no[unfolded assms(3,4)]]
    unfolding assms(3,4) revert_swap[OF wf ok] by simp
  then show "mouseup st mouseX mouseY = Some (st\<lparr>gs_isDragging := False, gs_selectedGem := None\<rparr>)"
    by simp
qed

theorem rejected_swap_witness:
  "mouseup (demoDown demoRest) 550 50 =
     Some ((demoDown demoRest)\<lparr>gs_isDragging := False, gs_selectedGem := None\<rparr>) \<and>
   legalTarget (demoGem 3 0 G0) (450 div CELL_SIZE) (50 div CELL_SIZE) \<and>
   mouseup (demoDown demoRest) 450 50 =
     Some ((demoDown demoRest)\<lparr>gs_isDragging := False, gs_selectedGem := None\<rparr>) \<and>
   gs_board (demoDown demoRest) = demoBoard \<and> gs_totalScore (demoDown demoRest) = 0"
proof -
  let ?sel = "demoGem 3 0 G0"
  have far: "\<bar>550 div CELL_SIZE - int (gem_x ?sel)\<bar> + \<bar>50 div CELL_SIZE - int (gem_y ?sel)\<bar> \<noteq> 1"
    by (simp add: CELL_SIZE_def demoGem_def)
  have legal: "legalTarget ?sel (450 div CELL_SIZE) (50 div CELL_SIZE)"
    by (simp add: legalTarget_def demoGem_def CELL_SIZE_def GRID_SIZE_def)
  have t: "nat (450 div CELL_SIZE) = 4" "nat (50 div CELL_SIZE) = 0"
    by (simp_all add: CELL_SIZE_def)
  have x: "gem_x ?sel = 3" "gem_y ?sel = 0" by (simp_all add: demoGem_def)
  have b: "(4::nat) < GRID_SIZE" "(0::nat) < GRID_SIZE" "(3::nat) < GRID_SIZE"
    by (simp_all add: GRID_SIZE_def)
  have no: "\<not> canMove (swapGems demoBoard ?sel 4 0) ?sel (demoBoard ! 0 ! 4) 4 0"
    by (simp add: canMove_def hasChainOfThree_def Let_def swapGems_def eval_board)
  have runs: "\<not> inRun (swapGems demoBoard ?sel 4 0) 0 4" "\<not> inRun (swapGems demoBoard ?sel 4 0) 0 3"
    using no canMove_iff[OF demo_wf b(1,2), of ?sel] by (simp_all add: x GRID_SIZE_def)
  from rejected_swap_changes_nothing[of "demoDown demoRest" ?sel "550 div CELL_SIZE" 550 "50 div CELL_SIZE" 50]
  have one: "mouseup (demoDown demoRest) 550 50 =
     Some ((demoDown demoRest)\<lparr>gs_isDragging := False, gs_selectedGem := None\<rparr>)"
    using far by (simp add: demoDown_fields)
  from rejected_swap_changes_nothing[of "demoDown demoRest" ?sel "450 div CELL_SIZE" 450 "50 div CELL_SIZE" 50]
  have two: "mouseup (demoDown demoRest) 450 50 =
     Some ((demoDown demoRest)\<lparr>gs_isDragging := False, gs_selectedGem := None\<rparr>)"
    using legal runs by (simp add: demoDown_fields demo_wf demo_selectionOk t x)
  show ?thesis using one two legal by (simp add: demoDown_fields)
qed

text \<open>
  C4. On an 8 by 8 board whose gems store their own coordinates, \<open>findMatches\<close> returns, row by
  row, the gems at exactly the cells that lie in a horizontal or vertical run of three or more
  equal non-empty gems. So every cell of a run of length L is returned, all L of them; no
  gem is returned twice, also when it lies in a horizontal and a vertical run; and no
  returned gem has type \<^verbatim>\<open>null\<close>.
\<close>

theorem findMatches_returns_run_cells_once:
  assumes "wf_board board" and "coherent board"
  shows "findMatches board =
           concat (map (\<lambda>y. map (\<lambda>x. board ! y ! x) (filter (\<lambda>x. inRun board y x) [0..<GRID_SIZE]))
                       [0..<GRID_SIZE]) \<and>
         distinct (findMatches board) \<and>
         (\<forall>y<GRID_SIZE. \<forall>lo hi. hrun board y lo hi \<longrightarrow>
            (\<forall>x \<in> {lo..hi}. board ! y ! x \<in> set (findMatches board))) \<and>
         (\<forall>x<GRID_SIZE. \<forall>lo hi. vrun board x lo hi \<longrightarrow>
            (\<forall>y \<in> {lo..hi}. board ! y ! x \<in> set (findMatches board))) \<and>
         (\<forall>g \<in> set (findMatches board). gem_type g \<noteq> None)"
proof (intro conjI allI impI ballI)
  show "findMatches board =
           concat (map (\<lambda>y. map (\<lambda>x. board ! y ! x) (filter (\<lambda>x. inRun board y x) [0..<GRID_SIZE]))
                       [0..<GRID_SIZE])"
    by (rule findMatches_inRun)
  show "distinct (findMatches board)"
    by (rule distinct_findMatches[OF assms])
next
  fix y lo hi x assume y: "y < GRID_SIZE" and r: "hrun board y lo hi" and x: "x \<in> {lo..hi}"
  have "hi < GRID_SIZE" using r unfolding hrun_def by blast
  with x have "x < GRID_SIZE" by simp
  with hrun_inRun[OF r x] y show "board ! y ! x \<in> set (findMatches board)"
    unfolding set_findMatches by blast
next
  fix x lo hi y assume x: "x < GRID_SIZE" and r: "vrun board x lo hi" and y: "y \<in> {lo..hi}"
  have "hi < GRID_SIZE" using r unfolding vrun_def by blast
  with y have "y < GRID_SIZE" by simp
  with vrun_inRun[OF r y] x show "board ! y ! x \<in> set (findMatches board)"
    unfolding set_findMatches by blast
next
  fix g assume "g \<in> set (findMatches board)"
  then show "gem_type g \<noteq> None" by (rule findMatches_types)
qed

theorem findMatches_returns_run_cells_witness:
  "wf_board demoSwapped \<and> coherent demoSwapped \<and> hrun demoSwapped 0 0 2 \<and>
   findMatches demoSwapped = [demoGem 0 0 G0, demoGem 1 0 G0, demoGem 2 0 G0] \<and>
   distinct (findMatches demoSwapped) \<and>
   demoSwapped ! 0 ! 1 \<in> set (findMatches demoSwapped)"
proof -
  have run: "hrun demoSwapped 0 0 2"
    unfolding hrun_def
    by (simp add: demoSwapped_def swapGems_def Let_def eval_board atLeastAtMost_upt)
  have "(1::nat) \<in> {0..2}" "(0::nat) < GRID_SIZE" by (simp_all add: GRID_SIZE_def)
  with findMatches_returns_run_cells_once[OF demo_swapped_wf demo_swapped_coherent] run
  have "distinct (findMatches demoSwapped) \<and> demoSwapped ! 0 ! 1 \<in> set (findMatches demoSwapped)"
    by blast
  then show ?thesis
    using run demo_swapped_wf demo_swapped_coherent demo_matches by simp
qed

text \<open>
  C5. \<open>collapseBoard\<close> on an 8 by 8 board works column by column. For column \<open>x\<close> with
  \<open>emptySpots\<close> empty cells, the types read from the top after the collapse are
  \<open>emptySpots\<close> fresh draws, taken from the random stream after the draws of the
  columns to the left, followed by the types of the occupied cells before the collapse in
  their original order. A column with no empty cell keeps its gems as they are.
\<close>

theorem collapseBoard_conserves_columns:
  assumes "wf_board board" and "collapseBoard board rng = (board', rng', fallingGems)"
  shows "(\<forall>x<GRID_SIZE.
            colTypes board' x GRID_SIZE =
              map Some (stake (emptyCount board x) (sdrop (drawsBetween board 0 x) rng)) @
              filter (\<lambda>t. t \<noteq> None) (colTypes board x GRID_SIZE) \<and>
            (emptyCount board x = 0 \<longrightarrow> (\<forall>y<GRID_SIZE. board' ! y ! x = board ! y ! x))) \<and>
         rng' = sdrop (drawsBetween board 0 GRID_SIZE) rng \<and> wf_board board'"
  using collapseBoard_post[OF assms(2,1)] by blast

theorem collapseBoard_conserves_columns_witness:
  "wf_board (removeMatches demoSwapped (findMatches demoSwapped)) \<and>
   collapseBoard (removeMatches demoSwapped (findMatches demoSwapped)) demoRest =
     (demoRefilled G1 G2 G3, sconst G0,
      [freshGem 0 1 0 G1, freshGem 1 1 0 G2, freshGem 2 1 0 G3]) \<and>
   colTypes (demoRefilled G1 G2 G3) 1 GRID_SIZE =
     Some G2 # filter (\<lambda>t. t \<noteq> None)
       (colTypes (removeMatches demoSwapped (findMatches demoSwapped)) 1 GRID_SIZE) \<and>
   emptyCount (removeMatches demoSwapped (findMatches demoSwapped)) 3 = 0 \<and>
   demoRefilled G1 G2 G3 ! 5 ! 3 = demoSwapped ! 5 ! 3"
proof -
  let ?b = "removeMatches demoSwapped (findMatches demoSwapped)"
  have wf: "wf_board ?b" by (rule wf_removeMatches[OF demo_swapped_wf])
  have c: "collapseBoard ?b demoRest =
     (demoRefilled G1 G2 G3, sconst G0, [freshGem 0 1 0 G1, freshGem 1 1 0 G2, freshGem 2 1 0 G3])"
    unfolding demo_matches demoRest_def
    by (simp add: demoRefilled_def freshGem_def demoSwapped_def swapGems_def Let_def eval_board
        eval_collapse)
  have e: "emptyCount ?b 0 = 1" "emptyCount ?b 1 = 1" "emptyCount ?b 3 = 0"
    unfolding demo_matches
    by (simp_all add: emptyCount_def colTypes_def demoSwapped_def swapGems_def Let_def eval_board)
  have d: "drawsBetween ?b 0 1 = 1"
    by (simp add: drawsBetween_def e)
  have same: "?b ! y ! 3 = demoSwapped ! y ! 3" if "y < GRID_SIZE" for y
    using that nth_removeMatches[OF demo_swapped_wf that, of 3 "findMatches demoSwapped"]
    by (simp add: demo_matches demoGem_def GRID_SIZE_def)
  have i: "(1::nat) < GRID_SIZE" "(3::nat) < GRID_SIZE" by (simp_all add: GRID_SIZE_def)
  from collapseBoard_conserves_columns[OF wf c]
  have "colTypes (demoRefilled G1 G2 G3) 1 GRID_SIZE =
          map Some (stake (emptyCount ?b 1) (sdrop (drawsBetween ?b 0 1) demoRest)) @
          filter (\<lambda>t. t \<noteq> None) (colTypes ?b 1 GRID_SIZE)"
    and "\<forall>y<GRID_SIZE. demoRefilled G1 G2 G3 ! y ! 3 = ?b ! y ! 3"
    using i e(3) by blast+
  moreover have "map Some (stake (emptyCount ?b 1) (sdrop (drawsBetween ?b 0 1) demoRest)) = [Some G2]"
    unfolding e d demoRest_def by simp
  moreover have "(5::nat) < GRID_SIZE" by (simp add: GRID_SIZE_def)
  ultimately show ?thesis
    using wf c same e(3) by simp
qed

text \<open>
  C6. When the cascade of an accepted swap ends after \<open>n\<close> passes, the score has grown by
  100 times the number of matched cells summed over these passes, each pass counting the
  cells \<open>findMatches\<close> returned, and the last board has no match. No handler lowers the
  score: \<^verbatim>\<open>mouseup\<close> never decreases it and \<^verbatim>\<open>mousedown\<close> leaves it alone.
\<close>

theorem score_is_100_per_matched_cell:
  "(cascade board rng totalScore (findMatches board) = Some (board', rng', totalScore') \<longrightarrow>
      (\<exists>n. (board', rng') = cascadeState n board rng \<and>
           (\<forall>i<n. 0 < matchCount i board rng) \<and> matchCount n board rng = 0 \<and>
           totalScore' = totalScore + 100 * (\<Sum>i<n. int (matchCount i board rng)))) \<and>
   (mouseup st mouseX mouseY = Some st' \<longrightarrow> gs_totalScore st \<le> gs_totalScore st') \<and>
   gs_totalScore (mousedown st mouseX mouseY) = gs_totalScore st"
proof (intro conjI impI)
  assume "cascade board rng totalScore (findMatches board) = Some (board', rng', totalScore')"
  from cascade_Some[OF this refl] obtain n where
    n: "findMatches (fst (cascadeState n board rng)) = []"
       "\<forall>i<n. findMatches (fst (cascadeState i board rng)) \<noteq> []"
       "(board', rng', totalScore') = (fst (cascadeState n board rng), snd (cascadeState n board rng),
            totalScore + 100 * (\<Sum>i<n. int (matchCount i board rng)))"
    by blast
  have "(board', rng') = cascadeState n board rng" using n(3) by simp
  moreover have "\<forall>i<n. 0 < matchCount i board rng" using n(2) by (simp add: matchCount_def)
  moreover have "matchCount n board rng = 0" using n(1) by (simp add: matchCount_def)
  moreover have "totalScore' = totalScore + 100 * (\<Sum>i<n. int (matchCount i board rng))"
    using n(3) by simp
  ultimately show "\<exists>n. (board', rng') = cascadeState n board rng \<and>
           (\<forall>i<n. 0 < matchCount i board rng) \<and> matchCount n board rng = 0 \<and>
           totalScore' = totalScore + 100 * (\<Sum>i<n. int (matchCount i board rng))"
    by blast
next
  assume "mouseup st mouseX mouseY = Some st'"
  then show "gs_totalScore st \<le> gs_totalScore st'" by (rule mouseup_score_mono)
next
  show "gs_totalScore (mousedown st mouseX mouseY) = gs_totalScore st"
    by (simp add: mousedown_def Let_def)
qed

theorem score_is_100_per_matched_cell_witness:
  "cascade demoSwapped demoRest 0 (findMatches demoSwapped) =
     Some (demoRefilled G1 G2 G3, sconst G0, 300) \<and>
   matchCount 0 demoSwapped demoRest = 3 \<and> matchCount 1 demoSwapped demoRest = 0 \<and>
   (300::int) = 0 + 100 * (\<Sum>i<1. int (matchCount i demoSwapped demoRest)) \<and>
   (demoRefilled G1 G2 G3, sconst G0) = cascadeState 1 demoSwapped demoRest"
proof -
  have c: "cascade demoSwapped demoRest 0 (findMatches demoSwapped) =
     Some (demoRefilled G1 G2 G3, sconst G0, 300)"
    using demo_cascade[of 0] by simp
  have m: "matchCount 0 demoSwapped demoRest = 3" "matchCount 1 demoSwapped demoRest = 0"
    by (simp_all add: matchCount_def demo_matches cascadeState_Suc[of 0] demoRest_def
        demo_step demo_no_matches)
  from score_is_100_per_matched_cell[of demoSwapped demoRest 0 "demoRefilled G1 G2 G3" "sconst G0" 300
      "demoDown demoRest" 250 50 "demoDown demoRest"] c
  obtain n where n: "(demoRefilled G1 G2 G3, sconst G0) = cascadeState n demoSwapped demoRest"
    "\<forall>i<n. 0 < matchCount i demoSwapped demoRest" "matchCount n demoSwapped demoRest = 0"
    "(300::int) = 0 + 100 * (\<Sum>i<n. int (matchCount i demoSwapped demoRest))"
    by blast
  have "n \<noteq> 0"
  proof
    assume "n = 0"
    with n(3) m(1) show False by simp
  qed
  moreover have "\<not> 1 < n" using n(2) m(2) by auto
  ultimately have "n = 1" by simp
  with n(1,4) c m show ?thesis by simp
qed

text \<open>
  C7. In every state a session can reach (after \<open>initBoard\<close>, after any \<^verbatim>\<open>mousedown\<close> and after
  any \<^verbatim>\<open>mouseup\<close> that returns, whether it reverted the swap or ran the cascade), the board
  is 8 by 8 and every gem stores the coordinates of the cell that holds it. On such a
  board the property survives the swap, \<open>removeMatches\<close> and \<open>collapseBoard\<close>, and
  \<open>removeMatches\<close> applied to the result of \<open>findMatches\<close> empties exactly the cells that
  lie in a run and leaves every other cell as it is.
\<close>

theorem stored_coordinates_match_positions:
  "(reachable st \<longrightarrow> wf_board (gs_board st) \<and> coherent (gs_board st)) \<and>
   (wf_board board \<and> coherent board \<longrightarrow>
      (selectionOk board sel \<and> newX < GRID_SIZE \<and> newY < GRID_SIZE \<longrightarrow>
         coherent (swapGems board sel newX newY)) \<and>
      coherent (removeMatches board gems) \<and>
      (collapseBoard board rng = (board', rng', fallingGems) \<longrightarrow> coherent board') \<and>
      (\<forall>y<GRID_SIZE. \<forall>x<GRID_SIZE.
         removeMatches board (findMatches board) ! y ! x =
           (if inRun board y x then (board ! y ! x)\<lparr>gem_type := None\<rparr> else board ! y ! x)))"
proof (intro conjI impI allI)
  assume "reachable st"
  from reachable_inv[OF this]
  show "wf_board (gs_board st)" "coherent (gs_board st)" by (simp_all add: sessionInv_def)
next
  assume a: "wf_board board \<and> coherent board"
    and b: "selectionOk board sel \<and> newX < GRID_SIZE \<and> newY < GRID_SIZE"
  then show "coherent (swapGems board sel newX newY)"
    by (intro coherent_swapGems) (simp_all add: selectionOk_def)
next
  assume "wf_board board \<and> coherent board"
  then show "coherent (removeMatches board gems)" by (intro coherent_removeMatches) simp_all
next
  assume "wf_board board \<and> coherent board" "collapseBoard board rng = (board', rng', fallingGems)"
  then show "coherent board'" using collapseBoard_coherent by blast
next
  fix y x assume "wf_board board \<and> coherent board" "y < GRID_SIZE" "x < GRID_SIZE"
  then show "removeMatches board (findMatches board) ! y ! x =
           (if inRun board y x then (board ! y ! x)\<lparr>gem_type := None\<rparr> else board ! y ! x)"
    by (intro removeMatches_findMatches) simp_all
qed

theorem stored_coordinates_witness:
  "reachable (demoDown demoRest) \<and> coherent demoBoard \<and> coherent demoSwapped \<and>
   inRun demoSwapped 0 1 \<and>
   removeMatches demoSwapped (findMatches demoSwapped) ! 0 ! 1 =
     (demoSwapped ! 0 ! 1)\<lparr>gem_type := None\<rparr> \<and>
   removeMatches demoSwapped (findMatches demoSwapped) ! 0 ! 4 = demoSwapped ! 0 ! 4"
proof -
  have b: "(0::nat) < GRID_SIZE" "(1::nat) < GRID_SIZE" "(2::nat) < GRID_SIZE" "(4::nat) < GRID_SIZE"
    by (simp_all add: GRID_SIZE_def)
  have m: "demoSwapped ! 0 ! 1 = demoGem 1 0 G0" "demoSwapped ! 0 ! 4 = demoGem 4 0 G2"
    by (simp_all add: demoSwapped_def swapGems_def Let_def eval_board)
  have "hrun demoSwapped 0 0 2"
    unfolding hrun_def
    by (simp add: demoSwapped_def swapGems_def Let_def eval_board atLeastAtMost_upt)
  moreover have "(1::nat) \<in> {0..2}" by simp
  ultimately have in1: "inRun demoSwapped 0 1" by (rule hrun_inRun)
  have out4: "\<not> inRun demoSwapped 0 4"
  proof
    assume "inRun demoSwapped 0 4"
    then have "demoSwapped ! 0 ! 4 \<in> set (findMatches demoSwapped)"
      unfolding set_findMatches using b by blast
    then show False by (simp add: demo_matches m demoGem_def)
  qed
  from stored_coordinates_match_positions[of "demoDown demoRest" demoBoard "demoGem 3 0 G0" 2 0]
  have one: "coherent demoBoard" "coherent (swapGems demoBoard (demoGem 3 0 G0) 2 0)"
    using demo_reachable demo_selectionOk b by (simp_all add: demoDown_fields)
  from stored_coordinates_match_positions[of "demoDown demoRest" demoSwapped]
  have "\<forall>y<GRID_SIZE. \<forall>x<GRID_SIZE.
         removeMatches demoSwapped (findMatches demoSwapped) ! y ! x =
           (if inRun demoSwapped y x then (demoSwapped ! y ! x)\<lparr>gem_type := None\<rparr>
            else demoSwapped ! y ! x)"
    using demo_swapped_wf demo_swapped_coherent by blast
  then have "removeMatches demoSwapped (findMatches demoSwapped) ! 0 ! 1 =
      (demoSwapped ! 0 ! 1)\<lparr>gem_type := None\<rparr>"
    "removeMatches demoSwapped (findMatches demoSwapped) ! 0 ! 4 = demoSwapped ! 0 ! 4"
    using b in1 out4 by simp_all
  then show ?thesis
    using one in1 demo_reachable by (simp add: demoSwapped_def)
qed

text \<open>
  C9 (amended). The resolution loop ends exactly when some pass of \<open>findMatches\<close> returns the
  empty list, and the board it then yields has no cell in a run of three or more. No bound
  on the number of passes is enforced: whether such a pass comes depends on the refill
  draws.
\<close>

theorem cascade_ends_iff_a_pass_finds_no_match:
  "(cascade board rng totalScore (findMatches board) \<noteq> None \<longleftrightarrow>
      (\<exists>n. matchCount n board rng = 0)) \<and>
   (cascade board rng totalScore (findMatches board) = Some (board', rng', totalScore') \<longrightarrow>
      findMatches board' = [] \<and> (\<forall>y<GRID_SIZE. \<forall>x<GRID_SIZE. \<not> inRun board' y x))"
proof (intro conjI impI)
  show "cascade board rng totalScore (findMatches board) \<noteq> None \<longleftrightarrow> (\<exists>n. matchCount n board rng = 0)"
    unfolding cascade_terminates_iff by (simp add: matchCount_def)
next
  assume "cascade board rng totalScore (findMatches board) = Some (board', rng', totalScore')"
  from cascade_Some[OF this refl] show "findMatches board' = []" by auto
  then show "\<forall>y<GRID_SIZE. \<forall>x<GRID_SIZE. \<not> inRun board' y x"
    by (simp add: findMatches_Nil_iff)
qed

theorem cascade_ends_witness:
  "matchCount 1 demoSwapped demoRest = 0 \<and>
   cascade demoSwapped demoRest 0 (findMatches demoSwapped) \<noteq> None \<and>
   cascade demoSwapped demoRest 0 (findMatches demoSwapped) =
     Some (demoRefilled G1 G2 G3, sconst G0, 300) \<and>
   findMatches (demoRefilled G1 G2 G3) = []"
proof -
  have m: "matchCount 1 demoSwapped demoRest = 0"
    by (simp add: matchCount_def cascadeState_Suc[of 0] demoRest_def demo_step demo_no_matches)
  have c: "cascade demoSwapped demoRest 0 (findMatches demoSwapped) =
     Some (demoRefilled G1 G2 G3, sconst G0, 300)"
    using demo_cascade[of 0] by simp
  from cascade_ends_iff_a_pass_finds_no_match[of demoSwapped demoRest 0 "demoRefilled G1 G2 G3" "sconst G0" 300]
  have "cascade demoSwapped demoRest 0 (findMatches demoSwapped) \<noteq> None"
    and "findMatches (demoRefilled G1 G2 G3) = []"
    using m c by blast+
  then show ?thesis using m c by simp
qed

text \<open>
  C9, as stated, fails. The stream below builds the demo board and then draws type 0 for
  ever. The board is reachable, the swap of cells (3, 0) and (2, 0) is accepted, and every
  pass removes three gems of type 0 from the top row and refills them with type 0: the loop
  of the \<^verbatim>\<open>mouseup\<close> handler never ends.
\<close>

theorem cascade_never_ends_under_constant_refill:
  "initBoard (concat demoRows @- sconst G0) = Some (demoBoard, sconst G0) \<and>
   reachable (demoDown (sconst G0)) \<and>
   canMove demoSwapped (demoGem 3 0 G0) (demoBoard ! 0 ! 2) 2 0 \<and>
   cascade demoSwapped (sconst G0) 0 (findMatches demoSwapped) = None \<and>
   mouseup (demoDown (sconst G0)) 250 50 = None"
  using demo_init[of "sconst G0"] demo_reachable[of "sconst G0"] demo_canMove
    demo_diverges[of 0] demo_mouseup[of "sconst G0"]
  by simp

text \<open>
  C10. \<open>collapseBoard\<close> on an 8 by 8 board leaves an 8 by 8 board with no empty cell. So in every
  state a session can reach the board has no empty cell, the selected gem has a type, and so
  has the gem at every target the swap validation accepts.
\<close>

theorem board_full_after_collapse:
  "(wf_board board \<and> collapseBoard board rng = (board', rng', fallingGems) \<longrightarrow>
      wf_board board' \<and> fullBoard board') \<and>
   (reachable st \<longrightarrow>
      wf_board (gs_board st) \<and> fullBoard (gs_board st) \<and>
      (\<forall>sel. gs_selectedGem st = Some sel \<longrightarrow>
         gem_type sel \<noteq> None \<and>
         (\<forall>newX newY. legalTarget sel newX newY \<longrightarrow>
            gem_type (gs_board st ! nat newY ! nat newX) \<noteq> None)))"
proof (intro conjI impI allI)
  assume a: "wf_board board \<and> collapseBoard board rng = (board', rng', fallingGems)"
  then show "wf_board board'" using collapseBoard_wf by blast
  from a show "fullBoard board'" using collapseBoard_full by blast
next
  assume "reachable st"
  from reachable_inv[OF this]
  show wf: "wf_board (gs_board st)" and full: "fullBoard (gs_board st)"
    by (simp_all add: sessionInv_def)
  have cell: "gem_type (gs_board st ! y ! x) \<noteq> None" if "y < GRID_SIZE" "x < GRID_SIZE" for y x
    using full that unfolding fullBoard_iff[OF wf] by blast
  fix sel assume sel: "gs_selectedGem st = Some sel"
  with reachable_inv[OF \<open>reachable st\<close>] have ok: "selectionOk (gs_board st) sel"
    by (simp add: sessionInv_def)
  then show "gem_type sel \<noteq> None"
    using cell[of "gem_y sel" "gem_x sel"] unfolding selectionOk_def by metis
  fix newX newY assume "legalTarget sel newX newY"
  from legalTarget_bounds[OF this]
  show "gem_type (gs_board st ! nat newY ! nat newX) \<noteq> None"
    by (intro cell) simp_all
qed

theorem board_full_witness:
  "wf_board (removeMatches demoSwapped (findMatches demoSwapped)) \<and>
   \<not> fullBoard (removeMatches demoSwapped (findMatches demoSwapped)) \<and>
   fullBoard (demoRefilled G1 G2 G3) \<and>
   reachable (demoDown demoRest) \<and> fullBoard demoBoard \<and>
   gem_type (demoGem 3 0 G0) \<noteq> None \<and> gem_type (demoBoard ! 0 ! 2) \<noteq> None"
proof -
  let ?b = "removeMatches demoSwapped (findMatches demoSwapped)"
  have wf: "wf_board ?b" by (rule wf_removeMatches[OF demo_swapped_wf])
  have c: "collapseBoard ?b demoRest = (demoRefilled G1 G2 G3, sconst G0,
      [freshGem 0 1 0 G1, freshGem 1 1 0 G2, freshGem 2 1 0 G3])"
    unfolding demo_matches demoRest_def
    by (simp add: demoRefilled_def freshGem_def demoSwapped_def swapGems_def Let_def eval_board
        eval_collapse)
  have hole: "gem_type (?b ! 0 ! 0) = None"
    using nth_removeMatches[OF demo_swapped_wf, of 0 0 "findMatches demoSwapped"]
    by (simp add: demo_matches demoGem_def GRID_SIZE_def)
  have z: "(0::nat) < GRID_SIZE" by (simp add: GRID_SIZE_def)
  have notfull: "\<not> fullBoard ?b"
    unfolding fullBoard_iff[OF wf] using hole z by metis
  from board_full_after_collapse[of ?b demoRest "demoRefilled G1 G2 G3" "sconst G0" _ "demoDown demoRest"]
  have "fullBoard (demoRefilled G1 G2 G3)" "fullBoard demoBoard"
    "gem_type (demoGem 3 0 G0) \<noteq> None"
    "gem_type (demoBoard ! nat (50 div CELL_SIZE) ! nat (250 div CELL_SIZE)) \<noteq> None"
    using wf c demo_reachable[of demoRest] demo_legal by (simp_all add: demoDown_fields del: not_None_eq)
  then show ?thesis
    using wf notfull demo_reachable by (simp add: demo_target del: not_None_eq)
qed

end
